theory Spec2Isabelle
  imports Complex_Main "HOL-Library.AList"
begin

section \<open>Text primitives of the SFZ converter\<close>

text \<open>
  The development embeds \<^verbatim>\<open>scripts/sfz_to_json.py\<close>. A Python \<^verbatim>\<open>str\<close> is a
  \<^typ>\<open>string\<close>. The character classes are those of Python restricted to code points below
  128: \<^verbatim>\<open>str.strip()\<close> and the pattern \<^verbatim>\<open>\s\<close> remove and match the code points
  9 to 13 and 28 to 32, the pattern \<^verbatim>\<open>\w\<close> matches digits, letters and the underscore,
  and \<^verbatim>\<open>.\<close> matches everything except the line feed.
\<close>

definition isspace :: "char \<Rightarrow> bool" where
  "isspace c = (let n = (of_char c :: nat) in (9 \<le> n \<and> n \<le> 13) \<or> (28 \<le> n \<and> n \<le> 32))"

definition isdigit :: "char \<Rightarrow> bool" where
  "isdigit c = (let n = (of_char c :: nat) in 48 \<le> n \<and> n \<le> 57)"

definition isword :: "char \<Rightarrow> bool" where
  "isword c = (let n = (of_char c :: nat) in
     (48 \<le> n \<and> n \<le> 57) \<or> (65 \<le> n \<and> n \<le> 90) \<or> n = 95 \<or> (97 \<le> n \<and> n \<le> 122))"

definition strip :: "string \<Rightarrow> string" where
  "strip s = rev (dropWhile isspace (rev (dropWhile isspace s)))"

definition startswith :: "string \<Rightarrow> string \<Rightarrow> bool" where
  "startswith s p = (take (length p) s = p)"

definition endswith :: "string \<Rightarrow> string \<Rightarrow> bool" where
  "endswith s p = (length p \<le> length s \<and> drop (length s - length p) s = p)"

text \<open>\<^verbatim>\<open>sub in s\<close>\<close>

fun contains :: "string \<Rightarrow> string \<Rightarrow> bool" where
  "contains sub [] = (sub = [])"
| "contains sub (c # cs) = (startswith (c # cs) sub \<or> contains sub cs)"

text \<open>\<^verbatim>\<open>s.split(sep)[0]\<close>: the text before the first occurrence of a non-empty separator.\<close>

fun split_first :: "string \<Rightarrow> string \<Rightarrow> string" where
  "split_first sep [] = []"
| "split_first sep (c # cs) = (if startswith (c # cs) sep then [] else c # split_first sep cs)"

text \<open>\<^verbatim>\<open>s[a:b]\<close> for indices \<open>0 \<le> a\<close> and \<open>0 \<le> b\<close>.\<close>

definition slice :: "string \<Rightarrow> nat \<Rightarrow> nat \<Rightarrow> string" where
  "slice s a b = take (b - a) (drop a s)"

fun index_of :: "char \<Rightarrow> string \<Rightarrow> nat option" where
  "index_of c [] = None"
| "index_of c (x # xs) = (if x = c then Some 0 else map_option Suc (index_of c xs))"

text \<open>
  \<^verbatim>\<open>s.find(c, i)\<close> and \<^verbatim>\<open>s.rfind(c, 0, hi)\<close> for a one-character string \<open>c\<close>;
  \<open>None\<close> stands for Python's result \<open>-1\<close>.
\<close>

definition str_find :: "char \<Rightarrow> string \<Rightarrow> nat \<Rightarrow> nat option" where
  "str_find c s i = map_option (\<lambda>k. i + k) (index_of c (drop i s))"

definition str_rfind :: "char \<Rightarrow> string \<Rightarrow> nat \<Rightarrow> nat option" where
  "str_rfind c s hi =
     (let pre = take hi s in map_option (\<lambda>k. length pre - 1 - k) (index_of c (rev pre)))"

text \<open>
  \<^verbatim>\<open>s.replace(old, new)\<close>: every non-overlapping occurrence, left to right. For the empty
  pattern Python puts \<open>new\<close> before every character and at the end.
\<close>

fun replace_nonempty :: "string \<Rightarrow> string \<Rightarrow> nat \<Rightarrow> string \<Rightarrow> string" where
  "replace_nonempty old new skip [] = []"
| "replace_nonempty old new (Suc k) (c # cs) = replace_nonempty old new k cs"
| "replace_nonempty old new 0 (c # cs) =
     (if startswith (c # cs) old then new @ replace_nonempty old new (length old - 1) cs
      else c # replace_nonempty old new 0 cs)"

definition replace :: "string \<Rightarrow> string \<Rightarrow> string \<Rightarrow> string" where
  "replace s old new =
     (if old = [] then new @ concat (map (\<lambda>c. c # new) s) else replace_nonempty old new 0 s)"

section \<open>The opcode tokenizer\<close>

text \<open>
  \<^verbatim>\<open>re.search(r"\s+\w+=", s)\<close>. The three classes are pairwise disjoint, so the greedy
  match at a position is decided without backtracking: the longest run of white space, then
  the longest non-empty run of word characters, then an equals sign. The result is the
  start of the leftmost match.
\<close>

definition key_pattern_here :: "string \<Rightarrow> bool" where
  "key_pattern_here s =
     (let r = dropWhile isspace s; w = takeWhile isword r; t = dropWhile isword r
      in s \<noteq> [] \<and> isspace (hd s) \<and> w \<noteq> [] \<and> t \<noteq> [] \<and> hd t = CHR ''='')"

fun search_key_pattern :: "string \<Rightarrow> nat option" where
  "search_key_pattern [] = None"
| "search_key_pattern (c # cs) =
     (if key_pattern_here (c # cs) then Some 0 else map_option Suc (search_key_pattern cs))"

lemma str_find_ge: "str_find c s i = Some eq \<Longrightarrow> i \<le> eq"
  by (auto simp: str_find_def)

lemma index_of_less: "index_of c s = Some k \<Longrightarrow> k < length s"
  by (induction s arbitrary: k) (auto split: if_splits)

lemma str_find_less: "str_find c s i = Some eq \<Longrightarrow> eq < length s"
  by (auto simp: str_find_def dest!: index_of_less)

lemma str_find_bounds: "str_find c s i = Some eq \<Longrightarrow> i \<le> eq \<and> eq < length s"
  by (simp add: str_find_ge str_find_less)

text \<open>
  The loop of \<open>extract_opcodes\<close>, from the loop index \<open>i\<close> on. The key is cut at the last
  space character before the equals sign (\<^verbatim>\<open>rfind(" ", 0, eq)\<close>; with no space the result
  \<open>-1\<close> makes the key start at index 0).
\<close>

function extract_from :: "string \<Rightarrow> nat \<Rightarrow> (string \<times> string) list" where
  "extract_from line i =
     (if i < length line then
        (case str_find CHR ''='' line i of
           None \<Rightarrow> []
         | Some eq \<Rightarrow>
             (let key_start = (case str_rfind CHR '' '' line eq of None \<Rightarrow> 0 | Some k \<Rightarrow> Suc k);
                  key = strip (slice line key_start eq)
              in case search_key_pattern (drop (eq + 1) line) of
                   Some m \<Rightarrow>
                     (let value_end = eq + 1 + m
                      in (key, strip (slice line (eq + 1) value_end)) # extract_from line value_end)
                 | None \<Rightarrow> [(key, strip (drop (eq + 1) line))]))
      else [])"
  by pat_completeness auto
termination
  by (relation "measure (\<lambda>(line, i). length line - i)")
     (auto dest!: str_find_bounds)

definition extract_opcodes :: "string \<Rightarrow> (string \<times> string) list" where
  "extract_opcodes line = extract_from line 0"

section \<open>Attribute values\<close>

text \<open>
  An attribute value is a Python \<^verbatim>\<open>int\<close>, \<^verbatim>\<open>float\<close> or \<^verbatim>\<open>str\<close>. A float is
  represented by the exact rational number its decimal literal denotes; Python holds the
  double nearest to it, so the model tells apart literals that Python rounds to the same
  double, and nothing below depends on the rounding except the truth value of a float.
\<close>

datatype val = VInt int | VFloat rat | VStr string

text \<open>
  The builtins \<^verbatim>\<open>int(s)\<close> and \<^verbatim>\<open>float(s)\<close> on ASCII text; \<open>None\<close> is their
  \<^verbatim>\<open>ValueError\<close>. Both skip the white space of the C locale (9 to 13 and 32) at either
  end, take an optional sign and read digits that single underscores may separate. The
  limit of the interpreter on the number of digits of an integer literal is not modelled.
\<close>

definition c_isspace :: "char \<Rightarrow> bool" where
  "c_isspace c = (let n = (of_char c :: nat) in (9 \<le> n \<and> n \<le> 13) \<or> n = 32)"

definition c_strip :: "string \<Rightarrow> string" where
  "c_strip s = rev (dropWhile c_isspace (rev (dropWhile c_isspace s)))"

fun digitpart :: "string \<Rightarrow> bool" where
  "digitpart [] = False"
| "digitpart [c] = isdigit c"
| "digitpart (c # d # cs) =
     (isdigit c \<and> (if d = CHR ''_'' then digitpart cs else digitpart (d # cs)))"

definition digits_val :: "string \<Rightarrow> nat" where
  "digits_val s = foldl (\<lambda>a c. 10 * a + (of_char c - 48)) 0 (filter isdigit s)"

definition split_sign :: "string \<Rightarrow> bool \<times> string" where
  "split_sign s =
     (case s of
        [] \<Rightarrow> (False, [])
      | c # cs \<Rightarrow> if c = CHR ''-'' then (True, cs) else if c = CHR ''+'' then (False, cs)
                 else (False, s))"

definition py_int :: "string \<Rightarrow> int option" where
  "py_int s =
     (let (neg, u) = split_sign (c_strip s)
      in if digitpart u then Some (if neg then - int (digits_val u) else int (digits_val u))
         else None)"

text \<open>
  \<open>float\<close> is only called on text that contains a full stop, which rules out the spellings
  of infinity and not-a-number; what remains is the decimal grammar: a mantissa with an
  optional point and digits on at least one side of it, and an optional exponent.
\<close>

definition mantissa :: "string \<Rightarrow> rat option" where
  "mantissa m =
     (case index_of CHR ''.'' m of
        None \<Rightarrow> if digitpart m then Some (of_nat (digits_val m)) else None
      | Some k \<Rightarrow>
          (let ip = take k m; fp = drop (Suc k) m
           in if (ip = [] \<or> digitpart ip) \<and> (fp = [] \<or> digitpart fp) \<and> \<not> (ip = [] \<and> fp = [])
              then Some (of_nat (digits_val ip)
                         + of_nat (digits_val fp) / 10 ^ length (filter isdigit fp))
              else None))"

definition exponent :: "string \<Rightarrow> int option" where
  "exponent e =
     (let (neg, u) = split_sign e
      in if digitpart u then Some (if neg then - int (digits_val u) else int (digits_val u))
         else None)"

definition py_float :: "string \<Rightarrow> rat option" where
  "py_float s =
     (let (neg, u) = split_sign (c_strip s);
          k = length (takeWhile (\<lambda>c. c \<noteq> CHR ''e'' \<and> c \<noteq> CHR ''E'') u);
          ex = (if k < length u then exponent (drop (Suc k) u) else Some 0)
      in case (mantissa (take k u), ex) of
           (Some m, Some e) \<Rightarrow>
             (let q = (if 0 \<le> e then m * 10 ^ nat e else m / 10 ^ nat (- e))
              in Some (if neg then - q else q))
         | _ \<Rightarrow> None)"

text \<open>
  The removal of quotes in \<open>parse_value\<close>: a text that starts and ends with a double quote
  (\<open>CHR 0x22\<close>) loses its first and last character, \<^verbatim>\<open>value[1:-1]\<close>; the text of the one
  character \<^verbatim>\<open>"\<close> becomes empty.
\<close>

definition unquote :: "string \<Rightarrow> string" where
  "unquote s =
     (if startswith s [CHR 0x22] \<and> endswith s [CHR 0x22] then slice s 1 (length s - 1) else s)"

definition parse_value :: "string \<Rightarrow> val" where
  "parse_value value0 =
     (let v = unquote (strip value0)
      in if contains ''.'' v
         then (case py_float v of Some q \<Rightarrow> VFloat q | None \<Rightarrow> VStr v)
         else (case py_int v of Some n \<Rightarrow> VInt n | None \<Rightarrow> VStr v))"

text \<open>
  Python's truth value: a number is true unless it is zero, a string unless it is empty.
  The double nearest to a rational is zero exactly when its magnitude is at most half the
  least positive double, \<open>2 ^ -1075\<close>.
\<close>

fun truthy :: "val \<Rightarrow> bool" where
  "truthy (VInt n) = (n \<noteq> 0)"
| "truthy (VFloat q) = (\<not> \<bar>q\<bar> \<le> 1 / 2 ^ 1075)"
| "truthy (VStr s) = (s \<noteq> [])"

section \<open>The parser state\<close>

text \<open>
  A Python \<^verbatim>\<open>dict\<close> is an association list in insertion order: assigning to a key that
  is present replaces the value in place, assigning to a new key appends it, which is
  \<^const>\<open>AList.update\<close>. The fields of \<^verbatim>\<open>self.data\<close> are fields of the parser record. The
  two references \<^verbatim>\<open>self.current_group\<close> and \<^verbatim>\<open>self.current_region\<close> point into
  \<^verbatim>\<open>self.data["groups"]\<close>; they are kept as the index of the group and as the pair of
  the group index and the region index, and a write through a reference is a write at
  that position of the group list. The \<^verbatim>\<open>print\<close> calls write diagnostics to the standard
  output only; they and the flag \<^verbatim>\<open>verbose\<close>, which guards most of them, are left out.
  The list \<open>opened\<close> is not a field of the source: it records, in order, the paths handed
  to \<^verbatim>\<open>open\<close> in \<open>parse_file\<close>.
\<close>

type_synonym dict = "(string \<times> val) list"

record group =
  opcodes :: dict
  regions :: "dict list"

datatype section_name = Control | Global | Group | Region

record parser =
  control :: dict
  global :: dict
  groups :: "group list"
  defines_tbl :: "(string \<times> string) list"
  current_section :: "section_name option"
  current_group :: "nat option"
  current_region :: "(nat \<times> nat) option"
  processed_files :: "string set"
  opened :: "string list"

definition init_parser :: parser where
  "init_parser = \<lparr>control = [], global = [], groups = [], defines_tbl = [],
     current_section = None, current_group = None, current_region = None,
     processed_files = {}, opened = []\<rparr>"

text \<open>\<^verbatim>\<open>d.update(other)\<close> and \<^verbatim>\<open>d.get(k, default)\<close>\<close>

definition dict_update :: "dict \<Rightarrow> dict \<Rightarrow> dict" where
  "dict_update d other = fold (\<lambda>(k, v). AList.update k v) other d"

definition dict_get :: "dict \<Rightarrow> string \<Rightarrow> val \<Rightarrow> val" where
  "dict_get d k dflt = (case map_of d k of None \<Rightarrow> dflt | Some v \<Rightarrow> v)"

definition empty_group :: group where
  "empty_group = \<lparr>opcodes = [], regions = []\<rparr>"

definition region_at :: "parser \<Rightarrow> nat \<times> nat \<Rightarrow> dict" where
  "region_at st ij = regions (groups st ! fst ij) ! snd ij"

definition set_group_opcode :: "nat \<Rightarrow> string \<Rightarrow> val \<Rightarrow> parser \<Rightarrow> parser" where
  "set_group_opcode i k v st =
     st\<lparr>groups := (groups st)[i := (groups st ! i)
           \<lparr>opcodes := AList.update k v (opcodes (groups st ! i))\<rparr>]\<rparr>"

definition set_region_opcode :: "nat \<times> nat \<Rightarrow> string \<Rightarrow> val \<Rightarrow> parser \<Rightarrow> parser" where
  "set_region_opcode ij k v st =
     (let g = groups st ! fst ij
      in st\<lparr>groups := (groups st)[fst ij := g
            \<lparr>regions := (regions g)[snd ij := AList.update k v (regions g ! snd ij)]\<rparr>]\<rparr>)"

text \<open>
  The macro loop \<^verbatim>\<open>for macro, val in self.defines.items(): value = value.replace(...)\<close>
  followed by \<open>parse_value\<close>.
\<close>

definition subst_macros :: "(string \<times> string) list \<Rightarrow> string \<Rightarrow> string" where
  "subst_macros ds value = fold (\<lambda>(macro, v) s. replace s (CHR ''$'' # macro) v) ds value"

definition resolve_value :: "parser \<Rightarrow> string \<Rightarrow> val" where
  "resolve_value st value = parse_value (subst_macros (defines_tbl st) value)"

text \<open>The branches for \<^verbatim>\<open><master>\<close> and \<^verbatim>\<open><group>\<close>, which are the same code.\<close>

definition new_group :: "parser \<Rightarrow> parser" where
  "new_group st =
     st\<lparr>current_section := Some Group,
        groups := groups st @ [empty_group],
        current_group := Some (length (groups st)),
        current_region := None\<rparr>"

text \<open>
  The branch for \<^verbatim>\<open><region>\<close> up to \<^verbatim>\<open>self.current_region = region\<close>: an implicit group
  when there is none, then the new region filled from the global scope and from the
  opcodes of the current group, in this order.
\<close>

definition new_region :: "parser \<Rightarrow> parser" where
  "new_region st =
     (let st1 = (case current_group st of
                   None \<Rightarrow> st\<lparr>groups := groups st @ [empty_group],
                               current_group := Some (length (groups st))\<rparr>
                 | Some _ \<Rightarrow> st);
          i = (case current_group st1 of Some i \<Rightarrow> i | None \<Rightarrow> 0);
          g = groups st1 ! i;
          region = dict_update (dict_update [] (global st1)) (opcodes g)
      in st1\<lparr>current_section := Some Region,
             groups := (groups st1)[i := g\<lparr>regions := regions g @ [region]\<rparr>],
             current_region := Some (i, length (regions g))\<rparr>)"

text \<open>The loop over the opcodes that follow \<^verbatim>\<open><region>\<close> on its line.\<close>

definition region_line_opcodes :: "(string \<times> string) list \<Rightarrow> parser \<Rightarrow> parser" where
  "region_line_opcodes toks st =
     fold (\<lambda>(key, value) s.
             (case current_region s of
                Some ij \<Rightarrow> set_region_opcode ij key (resolve_value s value) s
              | None \<Rightarrow> s)) toks st"

text \<open>
  The body of the loop over the opcodes of a plain line. A reference is true in Python
  when it is not \<^verbatim>\<open>None\<close> and the dictionary it points to is not empty; a group
  dictionary always has its two entries, a region dictionary may be empty.
\<close>

definition store_opcode :: "string \<Rightarrow> string \<Rightarrow> parser \<Rightarrow> parser" where
  "store_opcode key value st =
     (let v = resolve_value st value
      in if current_section st = Some Control then st\<lparr>control := AList.update key v (control st)\<rparr>
         else if current_section st = Some Global then st\<lparr>global := AList.update key v (global st)\<rparr>
         else if current_section st = Some Group \<and> current_group st \<noteq> None
           then (case current_group st of Some i \<Rightarrow> set_group_opcode i key v st | None \<Rightarrow> st)
         else if current_section st = Some Region
                 \<and> (case current_region st of Some ij \<Rightarrow> region_at st ij \<noteq> [] | None \<Rightarrow> False)
           then (case current_region st of Some ij \<Rightarrow> set_region_opcode ij key v st | None \<Rightarrow> st)
         else st)"

definition store_opcodes :: "(string \<times> string) list \<Rightarrow> parser \<Rightarrow> parser" where
  "store_opcodes toks st = fold (\<lambda>(key, value). store_opcode key value) toks st"

section \<open>Directives and the line processor\<close>

text \<open>
  \<^verbatim>\<open>re.match(r'#define\s+\$(\w+)\s+(.+)', line)\<close>. White space, the dollar sign and the
  word characters exclude one another, so the prefix up to the name is matched without
  backtracking. The second run of white space is greedy but gives characters back until
  the last group finds a character that is not a line feed; \<open>define_value r k\<close> tries the
  runs of length \<open>k\<close>, \<open>k - 1\<close>, down to 1. The last group extends to the next line feed.
\<close>

fun define_value :: "string \<Rightarrow> nat \<Rightarrow> string option" where
  "define_value r 0 = None"
| "define_value r (Suc k) =
     (let rest = drop (Suc k) r
      in if rest \<noteq> [] \<and> hd rest \<noteq> CHR 0x0A then Some (takeWhile (\<lambda>c. c \<noteq> CHR 0x0A) rest)
         else define_value r k)"

definition match_define :: "string \<Rightarrow> (string \<times> string) option" where
  "match_define line =
     (let r1 = drop 7 line; r2 = dropWhile isspace r1; r3 = tl r2;
          name = takeWhile isword r3; r4 = dropWhile isword r3
      in if startswith line ''#define'' \<and> r1 \<noteq> [] \<and> isspace (hd r1)
            \<and> r2 \<noteq> [] \<and> hd r2 = CHR ''$'' \<and> name \<noteq> []
         then map_option (\<lambda>v. (name, v)) (define_value r4 (length (takeWhile isspace r4)))
         else None)"

text \<open>
  \<^verbatim>\<open>re.search(r'"([^"]+)"', line)\<close>, the first group of the leftmost match: a double quote,
  one or more characters that are not a double quote, and a double quote.
\<close>

fun search_quoted :: "string \<Rightarrow> string option" where
  "search_quoted [] = None"
| "search_quoted (c # cs) =
     (let body = takeWhile (\<lambda>x. x \<noteq> CHR 0x22) cs; rest = dropWhile (\<lambda>x. x \<noteq> CHR 0x22) cs
      in if c = CHR 0x22 \<and> body \<noteq> [] \<and> rest \<noteq> [] then Some body else search_quoted cs)"

text \<open>
  The file system is the environment of the parser. \<open>resolve\<close> is
  \<^verbatim>\<open>str(Path(p).resolve())\<close>, \<open>parent\<close> is \<^verbatim>\<open>filepath.parent\<close> of a resolved path,
  \<open>join_resolve base p\<close> is \<^verbatim>\<open>(base / p).resolve()\<close>, and \<open>files\<close> lists the paths that
  exist with the lines a read yields. Every path that exists is taken to be a readable
  text file, so that \<^verbatim>\<open>open\<close> for reading does not raise. For the output of \<open>main\<close>,
  \<open>with_suffix p\<close> is \<^verbatim>\<open>Path(p).with_suffix(".json")\<close>, with \<open>None\<close> where pathlib
  raises \<^verbatim>\<open>ValueError\<close> because the path has no name, and \<open>writable p\<close> tells whether
  \<^verbatim>\<open>open(p, "w")\<close> succeeds; it fails, for one, when the directory of \<open>p\<close> does not exist.
\<close>

record filesystem =
  resolve :: "string \<Rightarrow> string"
  parent :: "string \<Rightarrow> string"
  join_resolve :: "string \<Rightarrow> string \<Rightarrow> string"
  files :: "(string \<times> string list) list"
  with_suffix :: "string \<Rightarrow> string option"
  writable :: "string \<Rightarrow> bool"

definition path_exists :: "filesystem \<Rightarrow> string \<Rightarrow> bool" where
  "path_exists fs p = (map_of (files fs) p \<noteq> None)"

text \<open>
  The branch for \<^verbatim>\<open>#include\<close>; \<open>parse_file_rec\<close> stands for the recursive call
  \<^verbatim>\<open>self.parse_file(include_file)\<close>. \<open>CHR 0x5C\<close> is the backslash.
\<close>

definition include_line ::
  "(string \<Rightarrow> parser \<Rightarrow> parser option) \<Rightarrow> filesystem \<Rightarrow> string \<Rightarrow> string \<Rightarrow> parser
     \<Rightarrow> parser option" where
  "include_line parse_file_rec fs base_path line st =
     (case search_quoted line of
        None \<Rightarrow> Some st
      | Some include_path \<Rightarrow>
          (let include_path' = replace (subst_macros (defines_tbl st) include_path) [CHR 0x5C] ''/'';
               include_file = join_resolve fs base_path include_path'
           in if path_exists fs include_file then parse_file_rec include_file st else Some st))"

definition region_line :: "string \<Rightarrow> parser \<Rightarrow> parser" where
  "region_line line st =
     (let st1 = new_region st; rest_of_line = strip (drop 8 line)
      in if rest_of_line \<noteq> [] \<and> contains ''='' rest_of_line
         then region_line_opcodes (extract_opcodes rest_of_line) st1 else st1)"

text \<open>Removal of an inline comment: \<^verbatim>\<open>line.split("//")[0].strip()\<close> when the line has one.\<close>

definition uncomment :: "string \<Rightarrow> string" where
  "uncomment line = (if contains ''//'' line then strip (split_first ''//'' line) else line)"

definition process_line ::
  "(string \<Rightarrow> parser \<Rightarrow> parser option) \<Rightarrow> filesystem \<Rightarrow> string \<Rightarrow> string \<Rightarrow> parser
     \<Rightarrow> parser option" where
  "process_line parse_file_rec fs base_path line0 st =
     (if line0 = [] then Some st
      else if startswith line0 ''//'' then Some st
      else
        (let line = uncomment line0
         in if startswith line ''#define'' then
              (case match_define line of
                 Some (key, value) \<Rightarrow>
                   Some (st\<lparr>defines_tbl := AList.update key (strip value) (defines_tbl st)\<rparr>)
               | None \<Rightarrow> Some st)
            else if startswith line ''#include'' then include_line parse_file_rec fs base_path line st
            else if startswith line ''<control>'' then Some (st\<lparr>current_section := Some Control\<rparr>)
            else if startswith line ''<global>'' then Some (st\<lparr>current_section := Some Global\<rparr>)
            else if startswith line ''<master>'' then Some (new_group st)
            else if startswith line ''<group>'' then Some (new_group st)
            else if startswith line ''<region>'' then Some (region_line line st)
            else if contains ''='' line then Some (store_opcodes (extract_opcodes line) st)
            else Some st))"

text \<open>
  \<open>parse_file\<close> and \<open>process_line\<close> call each other; the first argument bounds the depth of
  nested inclusion, and \<open>None\<close> means that the bound was too small.
\<close>

fun process_lines ::
  "(string \<Rightarrow> parser \<Rightarrow> parser option) \<Rightarrow> filesystem \<Rightarrow> string \<Rightarrow> string list \<Rightarrow> parser
     \<Rightarrow> parser option" where
  "process_lines parse_file_rec fs base_path [] st = Some st"
| "process_lines parse_file_rec fs base_path (raw_line # rest_lines) st =
     (case process_line parse_file_rec fs base_path (strip raw_line) st of
        None \<Rightarrow> None
      | Some st' \<Rightarrow> process_lines parse_file_rec fs base_path rest_lines st')"

primrec parse_file :: "nat \<Rightarrow> filesystem \<Rightarrow> string \<Rightarrow> parser \<Rightarrow> parser option" where
  "parse_file 0 fs filepath st = None"
| "parse_file (Suc n) fs filepath st =
     (let p = resolve fs filepath
      in if p \<in> processed_files st then Some st
         else (case map_of (files fs) p of
                 None \<Rightarrow> Some st
               | Some raw_lines \<Rightarrow>
                   process_lines (parse_file n fs) fs (parent fs p) raw_lines
                     (st\<lparr>processed_files := insert p (processed_files st),
                         opened := opened st @ [p]\<rparr>)))"

section \<open>The normalizer and the entry point\<close>

text \<open>
  \<open>normalize\<close> raises when it treats a number as a path: \<^verbatim>\<open>Path(x)\<close> and
  \<^verbatim>\<open>Path(d) / x\<close> raise \<^verbatim>\<open>TypeError\<close> unless \<open>x\<close> is a string, and a number has no
  method \<^verbatim>\<open>replace\<close>. The join of two path strings, \<^verbatim>\<open>str(Path(d) / s)\<close>, depends on the
  platform and is a parameter. \<open>main\<close> can also raise \<^verbatim>\<open>ValueError\<close> when it derives the
  name of the output file and \<^verbatim>\<open>OSError\<close> (\<^verbatim>\<open>FileNotFoundError\<close> and its siblings)
  when it opens that file for writing.
\<close>

datatype error = TypeError | AttributeError | ValueError | OSError

record amp_env =
  attack :: val
  decay :: val
  sustain :: val
  release :: val

record descriptor =
  sample :: "val option"
  key_range :: "val \<times> val"
  vel_range :: "val \<times> val"
  root_key :: val
  tune :: val
  volume :: val
  loop_mode :: val
  amp_env :: amp_env

record document =
  norm_control :: dict
  norm_regions :: "descriptor list"

definition resolve_sample ::
  "(string \<Rightarrow> string \<Rightarrow> string) \<Rightarrow> val \<Rightarrow> val option \<Rightarrow> error + val option" where
  "resolve_sample joinpath default_path smp =
     (case smp of
        None \<Rightarrow> Inr None
      | Some s \<Rightarrow>
          if truthy s \<and> truthy default_path then
            (case (default_path, s) of
               (VStr d, VStr t) \<Rightarrow> Inr (Some (VStr (replace (joinpath d t) [CHR 0x5C] ''/'')))
             | _ \<Rightarrow> Inl TypeError)
          else if truthy s then
            (case s of
               VStr t \<Rightarrow> Inr (Some (VStr (replace t [CHR 0x5C] ''/'')))
             | _ \<Rightarrow> Inl AttributeError)
          else Inr (Some s))"

definition normalize_region ::
  "(string \<Rightarrow> string \<Rightarrow> string) \<Rightarrow> val \<Rightarrow> dict \<Rightarrow> error + descriptor" where
  "normalize_region joinpath default_path region =
     (case resolve_sample joinpath default_path (map_of region ''sample'') of
        Inl e \<Rightarrow> Inl e
      | Inr smp \<Rightarrow>
          Inr \<lparr>sample = smp,
               key_range = (dict_get region ''lokey'' (VInt 0), dict_get region ''hikey'' (VInt 127)),
               vel_range = (dict_get region ''lovel'' (VInt 0), dict_get region ''hivel'' (VInt 127)),
               root_key = dict_get region ''pitch_keycenter'' (dict_get region ''lokey'' (VInt 60)),
               tune = dict_get region ''tune'' (VInt 0),
               volume = dict_get region ''volume'' (VInt 0),
               loop_mode = dict_get region ''loop_mode'' (VStr ''one_shot''),
               amp_env = \<lparr>attack = dict_get region ''ampeg_attack'' (VFloat 0),
                           decay = dict_get region ''ampeg_decay'' (VFloat 0),
                           sustain = dict_get region ''ampeg_sustain'' (VFloat 1),
                           release = dict_get region ''ampeg_release'' (VFloat 0)\<rparr>\<rparr>)"

text \<open>The two nested loops: the regions in order, stopping at the first exception.\<close>

fun normalize_all ::
  "(string \<Rightarrow> string \<Rightarrow> string) \<Rightarrow> val \<Rightarrow> dict list \<Rightarrow> error + descriptor list" where
  "normalize_all joinpath default_path [] = Inr []"
| "normalize_all joinpath default_path (region # rs) =
     (case normalize_region joinpath default_path region of
        Inl e \<Rightarrow> Inl e
      | Inr d \<Rightarrow>
          (case normalize_all joinpath default_path rs of
             Inl e \<Rightarrow> Inl e
           | Inr ds \<Rightarrow> Inr (d # ds)))"

definition normalize :: "(string \<Rightarrow> string \<Rightarrow> string) \<Rightarrow> parser \<Rightarrow> error + document" where
  "normalize joinpath st =
     (let default_path = dict_get (control st) ''default_path'' (VStr [])
      in case normalize_all joinpath default_path (concat (map regions (groups st))) of
           Inl e \<Rightarrow> Inl e
         | Inr ds \<Rightarrow> Inr \<lparr>norm_control = control st, norm_regions = ds\<rparr>)"

text \<open>
  \<open>main\<close> on the argument vector: \<open>None\<close> when the inclusion bound was too small, otherwise
  the exception that escapes or the output file with the document written to it; with
  fewer than two arguments it prints the usage and writes nothing. The steps are those of
  the source in their order: parse, normalize, derive the name of the output file, open
  it for writing, dump the document.
\<close>

definition main ::
  "nat \<Rightarrow> filesystem \<Rightarrow> (string \<Rightarrow> string \<Rightarrow> string) \<Rightarrow> string list
     \<Rightarrow> (error + (string \<times> document) option) option" where
  "main n fs joinpath argv =
     (if length argv < 2 then Some (Inr None)
      else (case parse_file n fs (argv ! 1) init_parser of
              None \<Rightarrow> None
            | Some st \<Rightarrow>
                Some (case normalize joinpath st of
                        Inl e \<Rightarrow> Inl e
                      | Inr doc \<Rightarrow>
                          (case with_suffix fs (argv ! 1) of
                             None \<Rightarrow> Inl ValueError
                           | Some output_file \<Rightarrow>
                               if writable fs output_file then Inr (Some (output_file, doc))
                               else Inl OSError))))"

section \<open>Well-formed parser states\<close>

text \<open>
  What the constructor and every step of the parser maintain: a dictionary has each key
  once; the current group, when there is one, is the last group of the document, and
  there is none only while the document has no group; the current region, when there is
  one, is the last region of the current group.
\<close>

definition dict_ok :: "dict \<Rightarrow> bool" where
  "dict_ok d = distinct (map fst d)"

definition group_ok :: "group \<Rightarrow> bool" where
  "group_ok g = (dict_ok (opcodes g) \<and> list_all dict_ok (regions g))"

definition wf_parser :: "parser \<Rightarrow> bool" where
  "wf_parser st =
     (dict_ok (control st) \<and> dict_ok (global st) \<and> list_all group_ok (groups st)
      \<and> (case current_group st of
            None \<Rightarrow> groups st = [] \<and> current_region st = None
          | Some i \<Rightarrow>
              Suc i = length (groups st)
              \<and> (case current_region st of
                    None \<Rightarrow> True
                  | Some ij \<Rightarrow> fst ij = i \<and> Suc (snd ij) = length (regions (groups st ! i)))))"

text \<open>The opcode mapping of the current group; empty while there is no group.\<close>

definition current_opcodes :: "parser \<Rightarrow> dict" where
  "current_opcodes st = (case current_group st of None \<Rightarrow> [] | Some i \<Rightarrow> opcodes (groups st ! i))"

text \<open>
  Bookkeeping for inclusion: every path handed to \<^verbatim>\<open>open\<close> was opened once and is in the
  set of processed files; \<open>pending\<close> counts the files that exist and are not yet processed.
\<close>

definition read_once :: "parser \<Rightarrow> bool" where
  "read_once st = (distinct (opened st) \<and> set (opened st) \<subseteq> processed_files st)"

definition pending :: "filesystem \<Rightarrow> parser \<Rightarrow> nat" where
  "pending fs st = card (fst ` set (files fs) - processed_files st)"

section \<open>The tokenizer as the specification words it\<close>

text \<open>
  The tokenizer of the specification, written from its words and not from the code:
  locate the next equals sign; the key is the run of characters that are not white space
  immediately before it, found by going back to the nearest white space or to the start
  of the line; the value runs from just after the equals sign to the start of the next
  match of white space, word characters and an equals sign, or to the end of the line.
\<close>

definition spec_key :: "string \<Rightarrow> nat \<Rightarrow> string" where
  "spec_key line eq = rev (takeWhile (\<lambda>c. \<not> isspace c) (rev (take eq line)))"

function spec_tokens :: "string \<Rightarrow> nat \<Rightarrow> (string \<times> string) list" where
  "spec_tokens line i =
     (if i < length line then
        (case str_find CHR ''='' line i of
           None \<Rightarrow> []
         | Some eq \<Rightarrow>
             (case search_key_pattern (drop (eq + 1) line) of
                Some m \<Rightarrow>
                  (spec_key line eq, slice line (eq + 1) (eq + 1 + m))
                    # spec_tokens line (eq + 1 + m)
              | None \<Rightarrow> [(spec_key line eq, drop (eq + 1) line)]))
      else [])"
  by pat_completeness auto
termination
  by (relation "measure (\<lambda>(line, i). length line - i)")
     (auto dest!: str_find_bounds)

section \<open>Decimal numerals\<close>

text \<open>
  The usual decimal spelling of a natural number and of an integer, against which the
  numeric parsing of \<open>parse_value\<close> is stated, and the characters that can occur in a text
  that \<^verbatim>\<open>int\<close> or \<^verbatim>\<open>float\<close> accepts here.
\<close>

definition digit_char :: "nat \<Rightarrow> char" where
  "digit_char d = char_of (48 + d)"

function show_nat :: "nat \<Rightarrow> string" where
  "show_nat n = (if n < 10 then [digit_char n] else show_nat (n div 10) @ [digit_char (n mod 10)])"
  by pat_completeness auto
termination
  by (relation "measure (\<lambda>n. n)") auto

declare show_nat.simps [simp del]

definition show_int :: "int \<Rightarrow> string" where
  "show_int i = (if i < 0 then CHR ''-'' # show_nat (nat (- i)) else show_nat (nat i))"

definition numeric_char :: "char \<Rightarrow> bool" where
  "numeric_char c = (isdigit c \<or> c_isspace c \<or> c \<in> set ''+-_.eE'')"

section \<open>Example inputs\<close>

text \<open>A join of two relative path strings, for the examples.\<close>

definition simple_join :: "string \<Rightarrow> string \<Rightarrow> string" where
  "simple_join d s = d @ ''/'' @ s"

text \<open>
  The output name of a path whose last component has one suffix, and an environment in
  which the directory \<^verbatim>\<open>nodir\<close> does not exist while every other file can be written.
\<close>

definition json_name :: "string \<Rightarrow> string option" where
  "json_name p =
     (if p = [] then None
      else Some (rev (dropWhile (\<lambda>c. c \<noteq> CHR ''.'') (rev p)) @ ''json''))"

definition outside_nodir :: "string \<Rightarrow> bool" where
  "outside_nodir p = (\<not> startswith p ''nodir/'')"

text \<open>
  Three regions in two groups: the first has a pitch centre and a low key, the second only
  a low key, the third neither.
\<close>

definition three_regions :: parser where
  "three_regions = init_parser\<lparr>groups :=
     [\<lparr>opcodes = [], regions = [[(''pitch_keycenter'', VInt 64), (''lokey'', VInt 40)]]\<rparr>,
      \<lparr>opcodes = [], regions = [[(''lokey'', VInt 40)], []]\<rparr>]\<rparr>"

text \<open>
  A file system with three one-region instruments whose \<^verbatim>\<open>sample\<close> is a number, and the
  parser states that reading the last two leaves behind. Paths are their own canonical
  form here.
\<close>

definition numeric_sample_fs :: filesystem where
  "numeric_sample_fs = \<lparr>resolve = (\<lambda>p. p), parent = (\<lambda>p. []), join_resolve = (\<lambda>b p. p),
     files = [(''zero.sfz'', [''<region> sample=0'']),
              (''num.sfz'', [''<region> sample=123'']),
              (''numdir.sfz'', [''<control>'', ''default_path=samples'', ''<region> sample=123''])],
     with_suffix = json_name, writable = outside_nodir\<rparr>"

definition num_parsed :: parser where
  "num_parsed = \<lparr>control = [], global = [],
     groups = [\<lparr>opcodes = [], regions = [[(''sample'', VInt 123)]]\<rparr>], defines_tbl = [],
     current_section = Some Region, current_group = Some 0, current_region = Some (0, 0),
     processed_files = {''num.sfz''}, opened = [''num.sfz'']\<rparr>"

definition numdir_parsed :: parser where
  "numdir_parsed = \<lparr>control = [(''default_path'', VStr ''samples'')], global = [],
     groups = [\<lparr>opcodes = [], regions = [[(''sample'', VInt 123)]]\<rparr>], defines_tbl = [],
     current_section = Some Region, current_group = Some 0, current_region = Some (0, 0),
     processed_files = {''numdir.sfz''}, opened = [''numdir.sfz'']\<rparr>"

text \<open>
  The parser after \<^verbatim>\<open><global>\<close>, \<^verbatim>\<open>volume=-3\<close>, \<^verbatim>\<open><group>\<close>, \<^verbatim>\<open>loop_mode=loop\<close>, and
  after a following \<^verbatim>\<open><region>\<close> and \<^verbatim>\<open><global>\<close>.
\<close>

definition snapshot_before :: parser where
  "snapshot_before = \<lparr>control = [], global = [(''volume'', VInt (- 3))],
     groups = [\<lparr>opcodes = [(''loop_mode'', VStr ''loop'')], regions = []\<rparr>], defines_tbl = [],
     current_section = Some Group, current_group = Some 0, current_region = None,
     processed_files = {}, opened = []\<rparr>"

definition snapshot_later :: parser where
  "snapshot_later = (new_region snapshot_before)\<lparr>current_section := Some Global\<rparr>"

text \<open>
  Three files that include one another: \<open>A\<close> includes \<open>B\<close>, itself and \<open>C\<close>; \<open>B\<close> includes
  \<open>C\<close> and \<open>A\<close>. The parser state is the one a parse of \<open>A\<close> ends in.
\<close>

definition cyclic_fs :: filesystem where
  "cyclic_fs = \<lparr>resolve = (\<lambda>p. p), parent = (\<lambda>p. []), join_resolve = (\<lambda>b p. p),
     files = [(''A'', [''<global>'', ''volume=1'', ''#include '' @ [CHR 0x22] @ ''B'' @ [CHR 0x22],
                      ''#include '' @ [CHR 0x22] @ ''A'' @ [CHR 0x22],
                      ''#include '' @ [CHR 0x22] @ ''C'' @ [CHR 0x22], ''<region> sample=a.wav'']),
              (''B'', [''#include '' @ [CHR 0x22] @ ''C'' @ [CHR 0x22],
                      ''#include '' @ [CHR 0x22] @ ''A'' @ [CHR 0x22], ''tune=2'']),
              (''C'', [''pan=3''])],
     with_suffix = json_name, writable = outside_nodir\<rparr>"

definition cyclic_parsed :: parser where
  "cyclic_parsed = \<lparr>control = [],
     global = [(''volume'', VInt 1), (''pan'', VInt 3), (''tune'', VInt 2)],
     groups = [\<lparr>opcodes = [], regions =
        [[(''volume'', VInt 1), (''pan'', VInt 3), (''tune'', VInt 2), (''sample'', VStr ''a.wav'')]]\<rparr>],
     defines_tbl = [], current_section = Some Region, current_group = Some 0,
     current_region = Some (0, 0), processed_files = {''A'', ''B'', ''C''},
     opened = [''A'', ''B'', ''C'']\<rparr>"


section \<open>Properties\<close>

subsection \<open>The normalizer\<close>

lemma normalize_all_nth:
  "normalize_all joinpath dp rs = Inr ds \<Longrightarrow>
     length ds = length rs \<and> (\<forall>k<length rs. normalize_region joinpath dp (rs ! k) = Inr (ds ! k))"
proof (induction rs arbitrary: ds)
  case Nil
  then show ?case by simp
next
  case (Cons r rs)
  from Cons.prems obtain d ds' where
    d: "normalize_region joinpath dp r = Inr d" and
    ds': "normalize_all joinpath dp rs = Inr ds'" and
    ds: "ds = d # ds'"
    by (auto split: sum.splits)
  from Cons.IH[OF ds'] d ds show ?case
    by (auto simp: nth_Cons split: nat.splits)
qed

lemma normalize_nth:
  assumes "normalize joinpath st = Inr doc"
  shows "length (norm_regions doc) = length (concat (map regions (groups st)))"
    and "k < length (concat (map regions (groups st))) \<Longrightarrow>
         normalize_region joinpath (dict_get (control st) ''default_path'' (VStr []))
           (concat (map regions (groups st)) ! k) = Inr (norm_regions doc ! k)"
  using assms normalize_all_nth[of joinpath "dict_get (control st) ''default_path'' (VStr [])"
      "concat (map regions (groups st))" "norm_regions doc"]
  by (auto simp: normalize_def Let_def split: sum.splits)

lemma normalize_region_fields:
  assumes "normalize_region joinpath dp r = Inr d"
  shows "root_key d = dict_get r ''pitch_keycenter'' (dict_get r ''lokey'' (VInt 60))"
    and "key_range d = (dict_get r ''lokey'' (VInt 0), dict_get r ''hikey'' (VInt 127))"
    and "vel_range d = (dict_get r ''lovel'' (VInt 0), dict_get r ''hivel'' (VInt 127))"
  using assms by (auto simp: normalize_region_def split: sum.splits)

text \<open>
  C6. Whenever \<open>normalize\<close> returns, the root key of every descriptor is the region's
  \<^verbatim>\<open>pitch_keycenter\<close> when the region has one, otherwise its \<^verbatim>\<open>lokey\<close> when it has
  one, otherwise 60. The descriptors are in the order of the regions, group after group.
\<close>

theorem root_key_fallback:
  assumes "normalize joinpath st = Inr doc"
    and "k < length (concat (map regions (groups st)))"
  shows "root_key (norm_regions doc ! k) =
     (case map_of (concat (map regions (groups st)) ! k) ''pitch_keycenter'' of
        Some v \<Rightarrow> v
      | None \<Rightarrow> (case map_of (concat (map regions (groups st)) ! k) ''lokey'' of
                   Some v \<Rightarrow> v | None \<Rightarrow> VInt 60))"
proof -
  let ?r = "concat (map regions (groups st)) ! k"
  have "root_key (norm_regions doc ! k) =
      dict_get ?r ''pitch_keycenter'' (dict_get ?r ''lokey'' (VInt 60))"
    using normalize_nth(2)[OF assms] by (rule normalize_region_fields(1))
  then show ?thesis
    by (simp add: dict_get_def split: option.splits)
qed

theorem root_key_fallback_witness:
  "normalize simple_join three_regions = Inr (projr (normalize simple_join three_regions))
   \<and> root_key (norm_regions (projr (normalize simple_join three_regions)) ! 0) = VInt 64
   \<and> root_key (norm_regions (projr (normalize simple_join three_regions)) ! 1) = VInt 40
   \<and> root_key (norm_regions (projr (normalize simple_join three_regions)) ! 2) = VInt 60"
proof -
  have n: "normalize simple_join three_regions = Inr (projr (normalize simple_join three_regions))"
    by code_simp
  have rs: "concat (map regions (groups three_regions)) =
      [[(''pitch_keycenter'', VInt 64), (''lokey'', VInt 40)], [(''lokey'', VInt 40)], []]"
    by (simp add: three_regions_def)
  have "root_key (norm_regions (projr (normalize simple_join three_regions)) ! 0) = VInt 64"
    using root_key_fallback[OF n, of 0] by (simp add: rs)
  moreover have "root_key (norm_regions (projr (normalize simple_join three_regions)) ! 1) = VInt 40"
    using root_key_fallback[OF n, of 1] by (simp add: rs)
  moreover have "root_key (norm_regions (projr (normalize simple_join three_regions)) ! 2) = VInt 60"
    using root_key_fallback[OF n, of 2] by (simp add: rs)
  ultimately show ?thesis using n by simp
qed

text \<open>
  C7. Whenever \<open>normalize\<close> returns, there is one descriptor for every region, each with a
  key range and a velocity range; a region without \<^verbatim>\<open>lokey\<close> and \<^verbatim>\<open>hikey\<close> gets the
  key range 0 to 127, and a region without \<^verbatim>\<open>lovel\<close> and \<^verbatim>\<open>hivel\<close> gets the velocity
  range 0 to 127.
\<close>

theorem range_defaults:
  assumes "normalize joinpath st = Inr doc"
    and "k < length (concat (map regions (groups st)))"
  shows "length (norm_regions doc) = length (concat (map regions (groups st)))
     \<and> (map_of (concat (map regions (groups st)) ! k) ''lokey'' = None
          \<and> map_of (concat (map regions (groups st)) ! k) ''hikey'' = None
        \<longrightarrow> key_range (norm_regions doc ! k) = (VInt 0, VInt 127))
     \<and> (map_of (concat (map regions (groups st)) ! k) ''lovel'' = None
          \<and> map_of (concat (map regions (groups st)) ! k) ''hivel'' = None
        \<longrightarrow> vel_range (norm_regions doc ! k) = (VInt 0, VInt 127))"
proof -
  let ?r = "concat (map regions (groups st)) ! k"
  have r: "normalize_region joinpath (dict_get (control st) ''default_path'' (VStr [])) ?r
      = Inr (norm_regions doc ! k)"
    using assms by (rule normalize_nth(2))
  have "key_range (norm_regions doc ! k) = (VInt 0, VInt 127)"
    if "map_of ?r ''lokey'' = None \<and> map_of ?r ''hikey'' = None"
    using normalize_region_fields(2)[OF r] that by (simp add: dict_get_def)
  moreover have "vel_range (norm_regions doc ! k) = (VInt 0, VInt 127)"
    if "map_of ?r ''lovel'' = None \<and> map_of ?r ''hivel'' = None"
    using normalize_region_fields(3)[OF r] that by (simp add: dict_get_def)
  ultimately show ?thesis
    using normalize_nth(1)[OF assms(1)] by blast
qed

theorem range_defaults_witness:
  "normalize simple_join three_regions = Inr (projr (normalize simple_join three_regions))
   \<and> length (norm_regions (projr (normalize simple_join three_regions))) = 3
   \<and> key_range (norm_regions (projr (normalize simple_join three_regions)) ! 2) = (VInt 0, VInt 127)
   \<and> vel_range (norm_regions (projr (normalize simple_join three_regions)) ! 2) = (VInt 0, VInt 127)"
proof -
  have n: "normalize simple_join three_regions = Inr (projr (normalize simple_join three_regions))"
    by code_simp
  have rs: "concat (map regions (groups three_regions)) =
      [[(''pitch_keycenter'', VInt 64), (''lokey'', VInt 40)], [(''lokey'', VInt 40)], []]"
    by (simp add: three_regions_def)
  show ?thesis
    using range_defaults[OF n, of 2] n by (simp add: rs)
qed

subsection \<open>Numbers where a sample path is expected\<close>

lemma normalize_region_error:
  "normalize_region joinpath dp r = Inl e \<Longrightarrow> e = (if truthy dp then TypeError else AttributeError)"
  by (auto simp: normalize_region_def resolve_sample_def
      split: sum.splits option.splits if_splits val.splits)

lemma normalize_all_error_from:
  "normalize_all joinpath dp rs = Inl e \<Longrightarrow> \<exists>r\<in>set rs. normalize_region joinpath dp r = Inl e"
  by (induction rs) (auto split: sum.splits)

lemma normalize_all_raises:
  "r \<in> set rs \<Longrightarrow> normalize_region joinpath dp r = Inl e \<Longrightarrow>
     \<exists>e'. normalize_all joinpath dp rs = Inl e'"
  by (induction rs) (auto split: sum.splits)

lemma numeric_sample_raises:
  assumes "map_of r ''sample'' = Some v" and "truthy v" and "\<forall>s. v \<noteq> VStr s"
  shows "\<exists>e. normalize_region joinpath dp r = Inl e"
  using assms
  by (cases v; cases dp) (auto simp: normalize_region_def resolve_sample_def)

text \<open>
  C10, as the code has it. If some region of the document has a \<^verbatim>\<open>sample\<close> that is a
  number and that number is true in Python's sense (not zero), \<open>normalize\<close> raises:
  \<^verbatim>\<open>TypeError\<close> when the control scope has a true \<^verbatim>\<open>default_path\<close>, \<^verbatim>\<open>AttributeError\<close>
  otherwise. A sample that is the number zero fails both tests of the sample branch and is
  passed through unchanged.
\<close>

theorem normalize_numeric_sample:
  assumes "r \<in> set (concat (map regions (groups st)))"
    and "map_of r ''sample'' = Some v"
    and "v = VInt n \<or> v = VFloat q"
  shows "(truthy v \<longrightarrow>
           normalize joinpath st =
             Inl (if truthy (dict_get (control st) ''default_path'' (VStr []))
                  then TypeError else AttributeError))
       \<and> (\<not> truthy v \<longrightarrow>
           resolve_sample joinpath (dict_get (control st) ''default_path'' (VStr [])) (Some v)
             = Inr (Some v))"
proof -
  let ?dp = "dict_get (control st) ''default_path'' (VStr [])"
  let ?rs = "concat (map regions (groups st))"
  have "normalize joinpath st = Inl (if truthy ?dp then TypeError else AttributeError)"
    if t: "truthy v"
  proof -
    from assms(3) have "\<forall>s. v \<noteq> VStr s" by auto
    with assms(2) t obtain e where "normalize_region joinpath ?dp r = Inl e"
      using numeric_sample_raises by blast
    with assms(1) obtain e' where e': "normalize_all joinpath ?dp ?rs = Inl e'"
      using normalize_all_raises by blast
    then obtain r' where "normalize_region joinpath ?dp r' = Inl e'"
      using normalize_all_error_from by blast
    then have "e' = (if truthy ?dp then TypeError else AttributeError)"
      by (rule normalize_region_error)
    with e' show ?thesis
      by (simp add: normalize_def)
  qed
  moreover have "resolve_sample joinpath ?dp (Some v) = Inr (Some v)" if "\<not> truthy v"
    using that by (simp add: resolve_sample_def)
  ultimately show ?thesis by blast
qed

theorem normalize_numeric_sample_witness:
  "parse_file 1 numeric_sample_fs ''num.sfz'' init_parser = Some num_parsed
   \<and> normalize simple_join num_parsed = Inl AttributeError
   \<and> parse_file 1 numeric_sample_fs ''numdir.sfz'' init_parser = Some numdir_parsed
   \<and> normalize simple_join numdir_parsed = Inl TypeError
   \<and> resolve_sample simple_join (VStr ''samples'') (Some (VFloat 0)) = Inr (Some (VFloat 0))"
proof -
  have p1: "parse_file 1 numeric_sample_fs ''num.sfz'' init_parser = Some num_parsed"
    by code_simp
  have p2: "parse_file 1 numeric_sample_fs ''numdir.sfz'' init_parser = Some numdir_parsed"
    by code_simp
  have "normalize simple_join num_parsed = Inl AttributeError"
    using normalize_numeric_sample[of "[(''sample'', VInt 123)]" num_parsed "VInt 123" 123 0 simple_join]
    by (simp add: num_parsed_def dict_get_def)
  moreover have "normalize simple_join numdir_parsed = Inl TypeError"
    using normalize_numeric_sample[of "[(''sample'', VInt 123)]" numdir_parsed "VInt 123" 123 0 simple_join]
    by (simp add: numdir_parsed_def dict_get_def)
  moreover have "resolve_sample simple_join (VStr ''samples'') (Some (VFloat 0))
      = Inr (Some (VFloat 0))"
    using normalize_numeric_sample[of "[(''sample'', VFloat 0)]"
        "numdir_parsed\<lparr>groups := [\<lparr>opcodes = [], regions = [[(''sample'', VFloat 0)]]\<rparr>]\<rparr>"
        "VFloat 0" 0 0 simple_join]
    by (simp add: numdir_parsed_def dict_get_def)
  ultimately show ?thesis using p1 p2 by simp
qed

text \<open>
  C10 as stated fails for the number zero: the instrument \<^verbatim>\<open><region> sample=0\<close> is
  converted without an exception, and the descriptor written to the output file carries
  the integer 0 as sample.
\<close>

theorem zero_sample_is_emitted:
  "main 1 numeric_sample_fs simple_join [''sfz_to_json.py'', ''zero.sfz''] =
     Some (Inr (Some (''zero.json'', \<lparr>norm_control = [], norm_regions =
       [\<lparr>sample = Some (VInt 0), key_range = (VInt 0, VInt 127), vel_range = (VInt 0, VInt 127),
         root_key = VInt 60, tune = VInt 0, volume = VInt 0, loop_mode = VStr ''one_shot'',
         amp_env = \<lparr>attack = VFloat 0, decay = VFloat 0, sustain = VFloat 1,
                     release = VFloat 0\<rparr>\<rparr>]\<rparr>)))"
  by code_simp

subsection \<open>Marker lines and steps of the state machine\<close>

lemma strip_keeps_prefix:
  assumes "m \<noteq> []" and "\<not> isspace (hd m)" and "\<not> isspace (last m)"
  shows "strip (m @ x) = m @ rev (dropWhile isspace (rev x))"
proof -
  have a: "dropWhile isspace (m @ x) = m @ x"
    using assms(1,2) by (cases m) auto
  have b: "dropWhile isspace (rev x @ rev m) = dropWhile isspace (rev x) @ rev m"
  proof (cases "\<forall>c\<in>set (rev x). isspace c")
    case True
    then have "dropWhile isspace (rev x @ rev m) = dropWhile isspace (rev m)"
      by (simp add: dropWhile_append)
    moreover have "dropWhile isspace (rev m) = rev m"
      using assms(1,3) by (cases "rev m") (auto simp: last_rev hd_rev)
    moreover have "dropWhile isspace (rev x) = []"
      using True by simp
    ultimately show ?thesis by simp
  next
    case False
    then show ?thesis by (auto simp: dropWhile_append)
  qed
  show ?thesis by (simp add: strip_def a b)
qed

lemma split_first_prefix:
  "CHR ''/'' \<notin> set m \<Longrightarrow> split_first ''//'' (m @ x) = m @ split_first ''//'' x"
  by (induction m) (auto simp: startswith_def)

lemma uncomment_keeps_marker:
  assumes "m \<noteq> []" and "CHR ''/'' \<notin> set m" and "\<not> isspace (hd m)" and "\<not> isspace (last m)"
  shows "\<exists>r. uncomment (m @ x) = m @ r"
  using assms by (simp add: uncomment_def split_first_prefix strip_keeps_prefix)

lemma pl_control: "process_line rec fs base (''<control>'' @ rest) st = Some (st\<lparr>current_section := Some Control\<rparr>)"
proof -
  have "\<exists>r. uncomment (''<control>'' @ rest) = ''<control>'' @ r"
    by (rule uncomment_keeps_marker) (simp_all add: isspace_def)
  then obtain r where r: "uncomment (''<control>'' @ rest) = ''<control>'' @ r"
    by blast
  show ?thesis
    unfolding process_line_def Let_def r
    by (simp add: startswith_def)
qed

lemma pl_group: "process_line rec fs base (''<group>'' @ rest) st = Some (new_group st)"
proof -
  have "\<exists>r. uncomment (''<group>'' @ rest) = ''<group>'' @ r"
    by (rule uncomment_keeps_marker) (simp_all add: isspace_def)
  then obtain r where r: "uncomment (''<group>'' @ rest) = ''<group>'' @ r"
    by blast
  show ?thesis
    unfolding process_line_def Let_def r
    by (simp add: startswith_def)
qed

lemma pl_region: "process_line rec fs base (''<region>'' @ rest) st = Some (region_line (uncomment (''<region>'' @ rest)) st)"
proof -
  have "\<exists>r. uncomment (''<region>'' @ rest) = ''<region>'' @ r"
    by (rule uncomment_keeps_marker) (simp_all add: isspace_def)
  then obtain r where r: "uncomment (''<region>'' @ rest) = ''<region>'' @ r"
    by blast
  show ?thesis
    unfolding process_line_def Let_def r
    by (simp add: startswith_def)
qed

lemma wf_init: "wf_parser init_parser"
  by (simp add: wf_parser_def init_parser_def dict_ok_def)

lemma dict_ok_update: "dict_ok d \<Longrightarrow> dict_ok (AList.update k v d)"
  by (simp add: dict_ok_def distinct_update)

lemma dict_ok_dict_update: "dict_ok d \<Longrightarrow> dict_ok (dict_update d other)"
  unfolding dict_update_def
  by (induction other arbitrary: d) (auto simp: dict_ok_update)

lemma map_of_fold_update:
  "map_of (fold (\<lambda>(k, v). AList.update k (f v)) toks d)
     = map_of d ++ map_of (rev (map (\<lambda>(k, v). (k, f v)) toks))"
proof (induction toks arbitrary: d)
  case Nil
  then show ?case by simp
next
  case (Cons t toks)
  obtain k v where t: "t = (k, v)" by (cases t)
  show ?case
    by (rule ext) (simp add: t Cons.IH update_conv' map_add_def split: option.splits)
qed

lemma map_of_rev_distinct: "distinct (map fst xs) \<Longrightarrow> map_of (rev xs) = map_of xs"
  using map_of_inject_set[of "rev xs" xs] by (simp add: rev_map[symmetric])

lemma map_of_dict_update:
  assumes "dict_ok other"
  shows "map_of (dict_update d other) = map_of d ++ map_of other"
proof -
  have "map_of (dict_update d other) = map_of d ++ map_of (rev (map (\<lambda>(k, v). (k, v)) other))"
    unfolding dict_update_def using map_of_fold_update[of "\<lambda>v. v" other d] by simp
  then show ?thesis
    using assms by (simp add: dict_ok_def map_of_rev_distinct)
qed

lemma list_all_update: "list_all P xs \<Longrightarrow> P x \<Longrightarrow> list_all P (xs[i := x])"
  by (induction xs arbitrary: i) (auto split: nat.splits)

lemma list_all_nth: "list_all P xs \<Longrightarrow> i < length xs \<Longrightarrow> P (xs ! i)"
  by (simp add: list_all_length)

lemma set_group_opcode_fields:
  "control (set_group_opcode i k v st) = control st"
  "global (set_group_opcode i k v st) = global st"
  "defines_tbl (set_group_opcode i k v st) = defines_tbl st"
  "current_section (set_group_opcode i k v st) = current_section st"
  "current_group (set_group_opcode i k v st) = current_group st"
  "current_region (set_group_opcode i k v st) = current_region st"
  "processed_files (set_group_opcode i k v st) = processed_files st"
  "opened (set_group_opcode i k v st) = opened st"
  "length (groups (set_group_opcode i k v st)) = length (groups st)"
  by (simp_all add: set_group_opcode_def)

lemma set_region_opcode_fields:
  "control (set_region_opcode ij k v st) = control st"
  "global (set_region_opcode ij k v st) = global st"
  "defines_tbl (set_region_opcode ij k v st) = defines_tbl st"
  "current_section (set_region_opcode ij k v st) = current_section st"
  "current_group (set_region_opcode ij k v st) = current_group st"
  "current_region (set_region_opcode ij k v st) = current_region st"
  "processed_files (set_region_opcode ij k v st) = processed_files st"
  "opened (set_region_opcode ij k v st) = opened st"
  "length (groups (set_region_opcode ij k v st)) = length (groups st)"
  by (simp_all add: set_region_opcode_def Let_def)

lemma regions_set_group_opcode:
  "regions (groups (set_group_opcode i k v st) ! i') = regions (groups st ! i')"
  by (cases "i < length (groups st)"; cases "i' = i")
     (simp_all add: set_group_opcode_def list_update_beyond)

lemma region_at_set_group_opcode:
  "region_at (set_group_opcode i k v st) ij = region_at st ij"
  by (simp add: region_at_def regions_set_group_opcode)

lemma region_at_set_region_opcode_other:
  "ij' \<noteq> ij \<Longrightarrow> region_at (set_region_opcode ij k v st) ij' = region_at st ij'"
  by (cases "fst ij < length (groups st)"; cases "fst ij' = fst ij")
     (auto simp: region_at_def set_region_opcode_def Let_def prod_eq_iff list_update_beyond)

lemma region_at_set_region_opcode_same:
  assumes "fst ij < length (groups st)" and "snd ij < length (regions (groups st ! fst ij))"
  shows "region_at (set_region_opcode ij k v st) ij = AList.update k v (region_at st ij)"
  using assms by (simp add: region_at_def set_region_opcode_def Let_def)

lemma opcodes_set_region_opcode:
  "opcodes (groups (set_region_opcode ij k v st) ! i) = opcodes (groups st ! i)"
  by (cases "fst ij < length (groups st)"; cases "i = fst ij")
     (simp_all add: set_region_opcode_def Let_def list_update_beyond)

lemma length_regions_set_region_opcode:
  "length (regions (groups (set_region_opcode ij k v st) ! i)) = length (regions (groups st ! i))"
  by (cases "fst ij < length (groups st)"; cases "i = fst ij")
     (simp_all add: set_region_opcode_def Let_def list_update_beyond)

lemma wf_set_group_opcode:
  assumes "wf_parser st" and "current_group st = Some i"
  shows "wf_parser (set_group_opcode i k v st)"
proof -
  have i: "i < length (groups st)" and g: "group_ok (groups st ! i)"
    using assms by (auto simp: wf_parser_def list_all_length)
  have "group_ok ((groups st ! i)\<lparr>opcodes := AList.update k v (opcodes (groups st ! i))\<rparr>)"
    using g by (simp add: group_ok_def dict_ok_update)
  then show ?thesis
    using assms i
    by (auto simp: wf_parser_def set_group_opcode_def list_all_update split: option.splits)
qed

lemma wf_set_region_opcode:
  assumes "wf_parser st" and "current_region st = Some ij"
  shows "wf_parser (set_region_opcode ij k v st)"
proof -
  let ?g = "groups st ! fst ij"
  have i: "fst ij < length (groups st)" and j: "snd ij < length (regions ?g)"
    and cg: "current_group st = Some (fst ij)"
    using assms by (auto simp: wf_parser_def split: option.splits)
  have g: "group_ok ?g"
    using assms(1) i by (auto simp: wf_parser_def list_all_length)
  then have "dict_ok (regions ?g ! snd ij)"
    using j by (simp add: group_ok_def list_all_length)
  then have "group_ok (?g\<lparr>regions := (regions ?g)[snd ij := AList.update k v (regions ?g ! snd ij)]\<rparr>)"
    using g by (simp add: group_ok_def dict_ok_update list_all_update)
  then show ?thesis
    using assms i j cg
    by (auto simp: wf_parser_def set_region_opcode_def Let_def list_all_update split: option.splits)
qed

lemma wf_new_group: "wf_parser st \<Longrightarrow> wf_parser (new_group st)"
  by (auto simp: wf_parser_def new_group_def empty_group_def group_ok_def nth_append
      split: option.splits)
     (simp_all add: dict_ok_def)

lemma wf_store_opcode: "wf_parser st \<Longrightarrow> wf_parser (store_opcode key value st)"
  unfolding store_opcode_def Let_def
  by (auto simp: wf_set_group_opcode wf_set_region_opcode split: option.splits)
     (auto simp: wf_parser_def dict_ok_update)

lemma wf_store_opcodes: "wf_parser st \<Longrightarrow> wf_parser (store_opcodes toks st)"
  unfolding store_opcodes_def
  by (induction toks arbitrary: st) (auto simp: wf_store_opcode)

lemma wf_region_line_opcodes: "wf_parser st \<Longrightarrow> wf_parser (region_line_opcodes toks st)"
  unfolding region_line_opcodes_def
  by (induction toks arbitrary: st) (auto simp: wf_set_region_opcode split: option.splits)

lemma new_region_result:
  assumes "wf_parser st"
  shows "\<exists>i j. current_region (new_region st) = Some (i, j)
           \<and> current_group (new_region st) = Some i
           \<and> i < length (groups (new_region st))
           \<and> j < length (regions (groups (new_region st) ! i))
           \<and> (\<forall>i'<length (groups st). j \<noteq> length (regions (groups st ! i')) \<longrightarrow> i' \<noteq> i)
           \<and> region_at (new_region st) (i, j)
                = dict_update (dict_update [] (global st)) (current_opcodes st)"
proof (cases "current_group st")
  case None
  with assms have "groups st = []"
    by (simp add: wf_parser_def)
  with None show ?thesis
    by (simp add: new_region_def Let_def region_at_def current_opcodes_def empty_group_def)
next
  case (Some i)
  with assms have "Suc i = length (groups st)"
    by (simp add: wf_parser_def)
  with Some show ?thesis
    by (auto simp: new_region_def Let_def region_at_def current_opcodes_def)
qed

lemma new_region_fields:
  "control (new_region st) = control st"
  "global (new_region st) = global st"
  "defines_tbl (new_region st) = defines_tbl st"
  "processed_files (new_region st) = processed_files st"
  "opened (new_region st) = opened st"
  "current_section (new_region st) = Some Region"
  by (simp_all add: new_region_def Let_def split: option.splits)

lemma region_at_new_region:
  assumes "i < length (groups st)" and "j < length (regions (groups st ! i))"
  shows "region_at (new_region st) (i, j) = region_at st (i, j)"
proof (cases "current_group st")
  case None
  with assms show ?thesis
    by (simp add: new_region_def Let_def region_at_def nth_append)
next
  case (Some c)
  with assms show ?thesis
    by (cases "c < length (groups st)"; cases "i = c")
       (simp_all add: new_region_def Let_def region_at_def nth_append list_update_beyond)
qed

lemma dict_ok_empty: "dict_ok []"
  by (simp add: dict_ok_def)

lemma dict_ok_snapshot: "dict_ok (dict_update (dict_update [] a) b)"
  by (intro dict_ok_dict_update dict_ok_empty)

lemma wf_new_region:
  assumes "wf_parser st"
  shows "wf_parser (new_region st)"
proof (cases "current_group st")
  case None
  with assms have "groups st = []"
    by (simp add: wf_parser_def)
  with None assms show ?thesis
    by (simp add: new_region_def Let_def wf_parser_def empty_group_def group_ok_def
        dict_ok_snapshot dict_ok_empty)
next
  case (Some i)
  with assms have i: "Suc i = length (groups st)"
    by (simp add: wf_parser_def)
  then have g: "group_ok (groups st ! i)"
    using assms by (auto simp: wf_parser_def list_all_length)
  have "dict_ok (dict_update (dict_update [] (global st)) (opcodes (groups st ! i)))"
    by (rule dict_ok_snapshot)
  with g have "group_ok ((groups st ! i)\<lparr>regions := regions (groups st ! i)
      @ [dict_update (dict_update [] (global st)) (opcodes (groups st ! i))]\<rparr>)"
    by (simp add: group_ok_def)
  with Some i assms show ?thesis
    by (auto simp: new_region_def Let_def wf_parser_def list_all_update)
qed

lemma process_line_cases:
  assumes "process_line rec fs base line st = Some st'"
  obtains (Skip) "st' = st"
  | (Define) k v where "st' = st\<lparr>defines_tbl := AList.update k v (defines_tbl st)\<rparr>"
  | (Include) p where "startswith (uncomment line) ''#include''" and "rec p st = Some st'"
  | (Control_marker) "st' = st\<lparr>current_section := Some Control\<rparr>"
  | (Global_marker) "st' = st\<lparr>current_section := Some Global\<rparr>"
  | (Group_marker) "st' = new_group st"
  | (Region_marker) toks where "st' = region_line_opcodes toks (new_region st)"
  | (Opcodes) toks where "\<not> startswith (uncomment line) ''#include''"
      and "st' = store_opcodes toks st"
proof -
  have nil: "region_line_opcodes [] (new_region st) = new_region st"
    by (simp add: region_line_opcodes_def)
  from assms show thesis
    unfolding process_line_def Let_def include_line_def region_line_def
    by (auto split: if_splits option.splits intro: that nil[symmetric])
qed

lemma store_opcode_fields:
  "defines_tbl (store_opcode k v st) = defines_tbl st"
  "current_section (store_opcode k v st) = current_section st"
  "current_group (store_opcode k v st) = current_group st"
  "current_region (store_opcode k v st) = current_region st"
  "processed_files (store_opcode k v st) = processed_files st"
  "opened (store_opcode k v st) = opened st"
  by (auto simp: store_opcode_def Let_def set_group_opcode_fields set_region_opcode_fields
      split: option.splits)

lemma store_opcodes_fields:
  "defines_tbl (store_opcodes toks st) = defines_tbl st"
  "current_section (store_opcodes toks st) = current_section st"
  "current_group (store_opcodes toks st) = current_group st"
  "current_region (store_opcodes toks st) = current_region st"
  "processed_files (store_opcodes toks st) = processed_files st"
  "opened (store_opcodes toks st) = opened st"
  unfolding store_opcodes_def
  by (induction toks arbitrary: st; simp add: store_opcode_fields split: prod.splits)+

lemma region_line_opcodes_fields:
  "control (region_line_opcodes toks st) = control st"
  "global (region_line_opcodes toks st) = global st"
  "defines_tbl (region_line_opcodes toks st) = defines_tbl st"
  "current_section (region_line_opcodes toks st) = current_section st"
  "current_group (region_line_opcodes toks st) = current_group st"
  "current_region (region_line_opcodes toks st) = current_region st"
  "processed_files (region_line_opcodes toks st) = processed_files st"
  "opened (region_line_opcodes toks st) = opened st"
  unfolding region_line_opcodes_def
  by (induction toks arbitrary: st; simp add: set_region_opcode_fields split: prod.splits option.splits)+

lemma region_at_store_opcode:
  assumes "\<not> (current_section st = Some Region \<and> current_region st = Some ij)"
  shows "region_at (store_opcode k v st) ij = region_at st ij"
  using assms
  by (auto simp: store_opcode_def Let_def region_at_set_group_opcode
      region_at_set_region_opcode_other split: option.splits)
     (simp_all add: region_at_def)

lemma region_at_store_opcodes:
  assumes "\<not> (current_section st = Some Region \<and> current_region st = Some ij)"
  shows "region_at (store_opcodes toks st) ij = region_at st ij"
  using assms unfolding store_opcodes_def
proof (induction toks arbitrary: st)
  case Nil
  then show ?case by simp
next
  case (Cons t toks)
  obtain k v where t: "t = (k, v)" by (cases t)
  have "\<not> (current_section (store_opcode k v st) = Some Region
      \<and> current_region (store_opcode k v st) = Some ij)"
    using Cons.prems by (simp add: store_opcode_fields)
  from Cons.IH[OF this] show ?case
    using Cons.prems by (simp add: t region_at_store_opcode)
qed

lemma region_at_region_line_opcodes_other:
  assumes "current_region st \<noteq> Some ij"
  shows "region_at (region_line_opcodes toks st) ij = region_at st ij"
  using assms unfolding region_line_opcodes_def
proof (induction toks arbitrary: st)
  case Nil
  then show ?case by simp
next
  case (Cons t toks)
  obtain k v where t: "t = (k, v)" by (cases t)
  show ?case
  proof (cases "current_region st")
    case None
    with Cons show ?thesis by (simp add: t)
  next
    case (Some c)
    let ?s = "set_region_opcode c k (resolve_value st v) st"
    have "current_region ?s \<noteq> Some ij"
      using Cons.prems by (simp add: set_region_opcode_fields)
    from Cons.IH[OF this] show ?thesis
      using Some Cons.prems by (simp add: t region_at_set_region_opcode_other)
  qed
qed

lemma new_region_fresh:
  assumes "i < length (groups st)" and "j < length (regions (groups st ! i))"
  shows "current_region (new_region st) \<noteq> Some (i, j)"
proof (cases "current_group st")
  case None
  with assms show ?thesis
    by (simp add: new_region_def Let_def)
next
  case (Some c)
  with assms show ?thesis
    by (auto simp: new_region_def Let_def)
qed

lemma process_line_frame:
  assumes "process_line rec fs base line st = Some st'"
    and "\<not> startswith (uncomment line) ''#include''"
    and "i < length (groups st)" and "j < length (regions (groups st ! i))"
    and "\<not> (current_section st = Some Region \<and> current_region st = Some (i, j))"
  shows "region_at st' (i, j) = region_at st (i, j)"
  using assms(1)
proof (cases rule: process_line_cases)
  case (Include p)
  with assms(2) show ?thesis by simp
next
  case Group_marker
  with assms(3) show ?thesis
    by (simp add: new_group_def region_at_def nth_append)
next
  case (Region_marker toks)
  have "region_at st' (i, j) = region_at (new_region st) (i, j)"
    unfolding Region_marker
    by (rule region_at_region_line_opcodes_other) (rule new_region_fresh[OF assms(3,4)])
  then show ?thesis
    by (simp add: region_at_new_region[OF assms(3,4)])
next
  case (Opcodes toks)
  with assms(5) show ?thesis
    by (simp add: region_at_store_opcodes)
qed (simp_all add: region_at_def)

lemma wf_parser_updates:
  "wf_parser st \<Longrightarrow> wf_parser (st\<lparr>current_section := x\<rparr>)"
  "wf_parser st \<Longrightarrow> wf_parser (st\<lparr>defines_tbl := d\<rparr>)"
  "wf_parser st \<Longrightarrow> wf_parser (st\<lparr>processed_files := a, opened := b\<rparr>)"
  by (auto simp: wf_parser_def split: option.splits)

lemma process_line_wf:
  assumes "\<And>p s s'. wf_parser s \<Longrightarrow> rec p s = Some s' \<Longrightarrow> wf_parser s'"
    and "wf_parser st" and "process_line rec fs base line st = Some st'"
  shows "wf_parser st'"
  using assms(3)
proof (cases rule: process_line_cases)
  case (Include p)
  with assms(1,2) show ?thesis by blast
next
  case (Region_marker toks)
  with assms(2) show ?thesis
    by (simp add: wf_region_line_opcodes wf_new_region)
next
  case (Opcodes toks)
  with assms(2) show ?thesis
    by (simp add: wf_store_opcodes)
qed (use assms(2) in \<open>simp_all add: wf_new_group wf_parser_updates\<close>)

lemma process_lines_wf:
  assumes "\<And>p s s'. wf_parser s \<Longrightarrow> rec p s = Some s' \<Longrightarrow> wf_parser s'"
  shows "wf_parser st \<Longrightarrow> process_lines rec fs base ls st = Some st' \<Longrightarrow> wf_parser st'"
proof (induction ls arbitrary: st)
  case Nil
  then show ?case by simp
next
  case (Cons l ls)
  from Cons.prems(2) obtain s1 where
    s1: "process_line rec fs base (strip l) st = Some s1" and
    rest: "process_lines rec fs base ls s1 = Some st'"
    by (auto split: option.splits)
  have "wf_parser s1"
    using assms Cons.prems(1) s1 by (rule process_line_wf)
  then show ?case
    using rest by (rule Cons.IH)
qed

lemma parse_file_wf:
  "wf_parser st \<Longrightarrow> parse_file n fs p st = Some st' \<Longrightarrow> wf_parser st'"
proof (induction n arbitrary: st p st')
  case 0
  then show ?case by simp
next
  case (Suc n)
  let ?p = "resolve fs p"
  show ?case
  proof (cases "?p \<in> processed_files st \<or> map_of (files fs) ?p = None")
    case True
    with Suc.prems show ?thesis
      by (auto simp: Let_def split: if_splits)
  next
    case False
    then obtain ls where ls: "map_of (files fs) ?p = Some ls" by auto
    let ?s = "st\<lparr>processed_files := insert ?p (processed_files st), opened := opened st @ [?p]\<rparr>"
    have run: "process_lines (parse_file n fs) fs (parent fs ?p) ls ?s = Some st'"
      using Suc.prems(2) False ls by (simp add: Let_def)
    have "wf_parser ?s"
      using Suc.prems(1) by (rule wf_parser_updates)
    moreover have "\<And>q s s'. wf_parser s \<Longrightarrow> parse_file n fs q s = Some s' \<Longrightarrow> wf_parser s'"
      by (rule Suc.IH)
    ultimately show ?thesis
      using run process_lines_wf[of "parse_file n fs" ?s fs "parent fs ?p" ls st'] by blast
  qed
qed

lemma pl_global: "process_line rec fs base (''<global>'' @ rest) st = Some (st\<lparr>current_section := Some Global\<rparr>)"
proof -
  have "\<exists>r. uncomment (''<global>'' @ rest) = ''<global>'' @ r"
    by (rule uncomment_keeps_marker) (simp_all add: isspace_def)
  then obtain r where r: "uncomment (''<global>'' @ rest) = ''<global>'' @ r"
    by blast
  show ?thesis
    unfolding process_line_def Let_def r
    by (simp add: startswith_def)
qed

lemma pl_master: "process_line rec fs base (''<master>'' @ rest) st = Some (new_group st)"
proof -
  have "\<exists>r. uncomment (''<master>'' @ rest) = ''<master>'' @ r"
    by (rule uncomment_keeps_marker) (simp_all add: isspace_def)
  then obtain r where r: "uncomment (''<master>'' @ rest) = ''<master>'' @ r"
    by blast
  show ?thesis
    unfolding process_line_def Let_def r
    by (simp add: startswith_def)
qed

lemma index_of_None: "index_of c s = None \<longleftrightarrow> c \<notin> set s"
  by (induction s) auto

lemma contains_char: "contains [c] s \<longleftrightarrow> c \<in> set s"
  by (induction s) (auto simp: startswith_def)

lemma extract_opcodes_no_eq: "\<not> contains ''='' s \<Longrightarrow> extract_opcodes s = []"
proof -
  assume "\<not> contains ''='' s"
  then have "CHR ''='' \<notin> set (drop 0 s)"
    by (simp add: contains_char)
  then have "str_find CHR ''='' s 0 = None"
    unfolding str_find_def by (simp add: index_of_None)
  then show ?thesis
    by (simp add: extract_opcodes_def)
qed

lemma pl_region_opcodes:
  "process_line rec fs base (''<region>'' @ rest) st =
     Some (region_line_opcodes (extract_opcodes (strip (drop 8 (uncomment (''<region>'' @ rest)))))
             (new_region st))"
proof -
  let ?r = "strip (drop 8 (uncomment (''<region>'' @ rest)))"
  have "region_line (uncomment (''<region>'' @ rest)) st
      = region_line_opcodes (extract_opcodes ?r) (new_region st)"
  proof (cases "?r \<noteq> [] \<and> contains ''='' ?r")
    case True
    then show ?thesis by (simp add: region_line_def Let_def)
  next
    case False
    then have "\<not> contains ''='' ?r" by auto
    then have "extract_opcodes ?r = []" by (rule extract_opcodes_no_eq)
    with False show ?thesis
      by (auto simp: region_line_def Let_def region_line_opcodes_def)
  qed
  with pl_region[of rec fs base rest st] show ?thesis
    by (simp only:)
qed

lemma region_line_opcodes_result:
  assumes "current_region st = Some ij" and "fst ij < length (groups st)"
    and "snd ij < length (regions (groups st ! fst ij))"
  shows "region_at (region_line_opcodes toks st) ij
     = fold (\<lambda>(k, v). AList.update k (resolve_value st v)) toks (region_at st ij)"
proof -
  have "current_region s = Some ij \<Longrightarrow> fst ij < length (groups s)
      \<Longrightarrow> snd ij < length (regions (groups s ! fst ij)) \<Longrightarrow> defines_tbl s = ds
      \<Longrightarrow> region_at (region_line_opcodes toks s) ij
        = fold (\<lambda>(k, v). AList.update k (parse_value (subst_macros ds v))) toks (region_at s ij)"
    for s ds
  proof (induction toks arbitrary: s)
    case Nil
    then show ?case by (simp add: region_line_opcodes_def)
  next
    case (Cons t toks)
    obtain k v where t: "t = (k, v)" by (cases t)
    let ?s = "set_region_opcode ij k (resolve_value s v) s"
    have step: "region_line_opcodes ((k, v) # toks) s = region_line_opcodes toks ?s"
      using Cons.prems(1) by (simp add: region_line_opcodes_def)
    have "region_at (region_line_opcodes toks ?s) ij
        = fold (\<lambda>(k, v). AList.update k (parse_value (subst_macros ds v))) toks (region_at ?s ij)"
      using Cons.prems
      by (intro Cons.IH)
         (simp_all add: set_region_opcode_fields length_regions_set_region_opcode)
    moreover have "region_at ?s ij = AList.update k (resolve_value s v) (region_at s ij)"
      using Cons.prems(2,3) by (rule region_at_set_region_opcode_same)
    ultimately show ?case
      unfolding t step using Cons.prems(4) by (simp add: resolve_value_def)
  qed
  from this[OF assms refl] show ?thesis
    by (simp add: resolve_value_def)
qed

text \<open>
  C9. Whatever follows \<^verbatim>\<open><control>\<close>, \<^verbatim>\<open><global>\<close>, \<^verbatim>\<open><master>\<close> or \<^verbatim>\<open><group>\<close> on
  its line is discarded: the result is that of the bare marker, a switch of section, with a
  new empty group for the last two. Only \<^verbatim>\<open><region>\<close> has the rest of its line
  tokenized, and the opcodes are applied to the region just created: the mapping of that
  region is its mapping at creation overridden by the resolved opcodes, a later opcode
  winning over an earlier one with the same key.
\<close>

theorem marker_line_opcodes:
  "process_line rec fs base (''<control>'' @ rest) st = Some (st\<lparr>current_section := Some Control\<rparr>)
   \<and> process_line rec fs base (''<global>'' @ rest) st = Some (st\<lparr>current_section := Some Global\<rparr>)
   \<and> process_line rec fs base (''<master>'' @ rest) st = Some (new_group st)
   \<and> process_line rec fs base (''<group>'' @ rest) st = Some (new_group st)
   \<and> process_line rec fs base (''<region>'' @ rest) st =
        Some (region_line_opcodes
                (extract_opcodes (strip (drop 8 (uncomment (''<region>'' @ rest))))) (new_region st))
   \<and> (wf_parser st \<longrightarrow>
        (\<exists>ij. current_region (new_region st) = Some ij
           \<and> map_of (region_at (region_line_opcodes toks (new_region st)) ij)
             = map_of (region_at (new_region st) ij)
                 ++ map_of (rev (map (\<lambda>(k, v). (k, resolve_value st v)) toks))))"
proof -
  have "\<exists>ij. current_region (new_region st) = Some ij
           \<and> map_of (region_at (region_line_opcodes toks (new_region st)) ij)
             = map_of (region_at (new_region st) ij)
                 ++ map_of (rev (map (\<lambda>(k, v). (k, resolve_value st v)) toks))"
    if wf: "wf_parser st"
  proof -
    from new_region_result[OF wf] obtain i j where
      cr: "current_region (new_region st) = Some (i, j)" and
      i: "i < length (groups (new_region st))" and
      j: "j < length (regions (groups (new_region st) ! i))"
      by blast
    have "region_at (region_line_opcodes toks (new_region st)) (i, j)
        = fold (\<lambda>(k, v). AList.update k (resolve_value (new_region st) v)) toks
            (region_at (new_region st) (i, j))"
      using cr i j by (intro region_line_opcodes_result) simp_all
    also have "resolve_value (new_region st) = resolve_value st"
      by (rule ext) (simp add: resolve_value_def new_region_fields)
    finally show ?thesis
      using cr by (simp add: map_of_fold_update)
  qed
  then show ?thesis
    by (intro conjI impI pl_control pl_global pl_master pl_group pl_region_opcodes)
qed

theorem marker_line_opcodes_witness:
  "process_line (\<lambda>p s. None) numeric_sample_fs [] ''<global> volume=5'' init_parser
     = Some (init_parser\<lparr>current_section := Some Global\<rparr>)
   \<and> process_line (\<lambda>p s. None) numeric_sample_fs [] ''<group> volume=5'' init_parser
     = Some (new_group init_parser)
   \<and> opcodes (groups (new_group init_parser) ! 0) = []
   \<and> process_line (\<lambda>p s. None) numeric_sample_fs [] ''<region> sample=a.wav lokey=3'' init_parser
     = Some (region_line_opcodes [(''sample'', ''a.wav''), (''lokey'', ''3'')] (new_region init_parser))
   \<and> map_of (region_at (region_line_opcodes [(''sample'', ''a.wav''), (''lokey'', ''3'')]
                (new_region init_parser)) (0, 0)) ''lokey'' = Some (VInt 3)"
proof -
  note m = marker_line_opcodes[of "\<lambda>p s. None" numeric_sample_fs "[]" _ init_parser
      "[(''sample'', ''a.wav''), (''lokey'', ''3'')]"]
  have toks: "extract_opcodes (strip (drop 8 (uncomment (''<region>'' @ '' sample=a.wav lokey=3''))))
      = [(''sample'', ''a.wav''), (''lokey'', ''3'')]"
    by code_simp
  have cr: "current_region (new_region init_parser) = Some (0, 0)"
    by (simp add: new_region_def init_parser_def Let_def empty_group_def)
  have v: "resolve_value init_parser ''3'' = VInt 3"
    by code_simp
  have "process_line (\<lambda>p s. None) numeric_sample_fs [] ''<global> volume=5'' init_parser
     = Some (init_parser\<lparr>current_section := Some Global\<rparr>)"
    using m[of "'' volume=5''"] by simp
  moreover have "process_line (\<lambda>p s. None) numeric_sample_fs [] ''<group> volume=5'' init_parser
     = Some (new_group init_parser)"
    using m[of "'' volume=5''"] by simp
  moreover have "opcodes (groups (new_group init_parser) ! 0) = []"
    by (simp add: new_group_def init_parser_def empty_group_def)
  moreover have "process_line (\<lambda>p s. None) numeric_sample_fs [] ''<region> sample=a.wav lokey=3'' init_parser
     = Some (region_line_opcodes [(''sample'', ''a.wav''), (''lokey'', ''3'')] (new_region init_parser))"
    using m[of "'' sample=a.wav lokey=3''"] toks by simp
  moreover have "map_of (region_at (region_line_opcodes [(''sample'', ''a.wav''), (''lokey'', ''3'')]
                (new_region init_parser)) (0, 0)) ''lokey'' = Some (VInt 3)"
    using m[of "[]"] wf_init cr by (simp add: v)
  ultimately show ?thesis by blast
qed

subsection \<open>Regions are snapshots\<close>

text \<open>
  C1. A line that starts with \<^verbatim>\<open><region>\<close> creates the region by \<open>new_region\<close> before it
  applies the opcodes of the line. In a well-formed state (every state a parse reaches, by
  \<open>wf_init\<close>, \<open>process_line_wf\<close> and \<open>parse_file_wf\<close>) the mapping of the region at that moment
  is the global scope overlaid by the opcodes of the current group, the group winning.
  Afterwards no line other than an inclusion changes a region that exists, unless the
  section is the region section and the region is the current one; in particular an
  opcode line in the global, group or control section leaves every region as it was.
\<close>

theorem snapshot_at_creation:
  "process_line rec fs base (''<region>'' @ rest) st =
     Some (region_line_opcodes
             (extract_opcodes (strip (drop 8 (uncomment (''<region>'' @ rest))))) (new_region st))
   \<and> (wf_parser st \<longrightarrow>
        (\<exists>ij. current_region (new_region st) = Some ij
           \<and> map_of (region_at (new_region st) ij)
               = map_of (global st) ++ map_of (current_opcodes st)))
   \<and> (process_line rec fs base line s = Some s'
        \<and> \<not> startswith (uncomment line) ''#include''
        \<and> i < length (groups s) \<and> j < length (regions (groups s ! i))
        \<and> \<not> (current_section s = Some Region \<and> current_region s = Some (i, j))
      \<longrightarrow> region_at s' (i, j) = region_at s (i, j))"
proof (intro conjI impI)
  show "process_line rec fs base (''<region>'' @ rest) st =
     Some (region_line_opcodes
             (extract_opcodes (strip (drop 8 (uncomment (''<region>'' @ rest))))) (new_region st))"
    by (rule pl_region_opcodes)
next
  assume wf: "wf_parser st"
  from new_region_result[OF wf] obtain i j where
    cr: "current_region (new_region st) = Some (i, j)" and
    r: "region_at (new_region st) (i, j)
          = dict_update (dict_update [] (global st)) (current_opcodes st)"
    by blast
  have g: "dict_ok (global st)"
    using wf by (simp add: wf_parser_def)
  have o: "dict_ok (current_opcodes st)"
  proof (cases "current_group st")
    case None
    then show ?thesis by (simp add: current_opcodes_def dict_ok_empty)
  next
    case (Some c)
    with wf have "c < length (groups st)" and "list_all group_ok (groups st)"
      by (auto simp: wf_parser_def)
    then have "group_ok (groups st ! c)"
      by (simp add: list_all_length)
    with Some show ?thesis
      by (simp add: current_opcodes_def group_ok_def)
  qed
  have "map_of (region_at (new_region st) (i, j))
      = map_of (global st) ++ map_of (current_opcodes st)"
    by (simp add: r map_of_dict_update[OF o] map_of_dict_update[OF g])
  with cr show "\<exists>ij. current_region (new_region st) = Some ij
      \<and> map_of (region_at (new_region st) ij) = map_of (global st) ++ map_of (current_opcodes st)"
    by blast
next
  assume "process_line rec fs base line s = Some s'
        \<and> \<not> startswith (uncomment line) ''#include''
        \<and> i < length (groups s) \<and> j < length (regions (groups s ! i))
        \<and> \<not> (current_section s = Some Region \<and> current_region s = Some (i, j))"
  then show "region_at s' (i, j) = region_at s (i, j)"
    by (intro process_line_frame) blast+
qed

theorem snapshot_at_creation_witness:
  "process_lines (\<lambda>p s. None) numeric_sample_fs []
      [''<global>'', ''volume=-3'', ''<group>'', ''loop_mode=loop'', ''<region>'',
       ''<global>'', ''volume=-6''] init_parser
     = Some (store_opcodes [(''volume'', ''-6'')] snapshot_later)
   \<and> map_of (region_at (new_region snapshot_before) (0, 0)) ''volume'' = Some (VInt (- 3))
   \<and> map_of (region_at (new_region snapshot_before) (0, 0)) ''loop_mode'' = Some (VStr ''loop'')
   \<and> map_of (global (store_opcodes [(''volume'', ''-6'')] snapshot_later)) ''volume''
        = Some (VInt (- 6))
   \<and> map_of (region_at (store_opcodes [(''volume'', ''-6'')] snapshot_later) (0, 0)) ''volume''
        = Some (VInt (- 3))"
proof -
  note t = snapshot_at_creation[of "\<lambda>p s. None" numeric_sample_fs "[]" "[]" snapshot_before
      "''volume=-6''" snapshot_later "store_opcodes [(''volume'', ''-6'')] snapshot_later" 0 0]
  have run: "process_lines (\<lambda>p s. None) numeric_sample_fs []
      [''<global>'', ''volume=-3'', ''<group>'', ''loop_mode=loop'', ''<region>'',
       ''<global>'', ''volume=-6''] init_parser
     = Some (store_opcodes [(''volume'', ''-6'')] snapshot_later)"
    by code_simp
  have wf: "wf_parser snapshot_before"
    by (simp add: wf_parser_def snapshot_before_def dict_ok_def group_ok_def)
  have cr: "current_region (new_region snapshot_before) = Some (0, 0)"
    by (simp add: new_region_def snapshot_before_def Let_def)
  have created: "map_of (region_at (new_region snapshot_before) (0, 0))
      = map_of (global snapshot_before) ++ map_of (current_opcodes snapshot_before)"
    using t wf cr by auto
  have v: "map_of (region_at (new_region snapshot_before) (0, 0)) ''volume'' = Some (VInt (- 3))"
    and l: "map_of (region_at (new_region snapshot_before) (0, 0)) ''loop_mode'' = Some (VStr ''loop'')"
    unfolding created by (simp_all add: snapshot_before_def current_opcodes_def map_add_def)
  have step: "process_line (\<lambda>p s. None) numeric_sample_fs [] ''volume=-6'' snapshot_later
      = Some (store_opcodes [(''volume'', ''-6'')] snapshot_later)"
    by code_simp
  have ninc: "\<not> startswith (uncomment ''volume=-6'') ''#include''"
    by code_simp
  have shape: "0 < length (groups snapshot_later)"
    "0 < length (regions (groups snapshot_later ! 0))"
    "\<not> (current_section snapshot_later = Some Region \<and> current_region snapshot_later = Some (0, 0))"
    by (simp_all add: snapshot_later_def new_region_def snapshot_before_def Let_def)
  have "region_at (store_opcodes [(''volume'', ''-6'')] snapshot_later) (0, 0)
      = region_at snapshot_later (0, 0)"
    using t step ninc shape by blast
  also have "\<dots> = region_at (new_region snapshot_before) (0, 0)"
    by (simp add: snapshot_later_def region_at_def)
  finally have kept: "map_of (region_at (store_opcodes [(''volume'', ''-6'')] snapshot_later) (0, 0))
      ''volume'' = Some (VInt (- 3))"
    using v by simp
  have g: "map_of (global (store_opcodes [(''volume'', ''-6'')] snapshot_later)) ''volume''
        = Some (VInt (- 6))"
    by code_simp
  from run v l g kept show ?thesis by blast
qed

subsection \<open>Missing files\<close>




subsection \<open>Inclusion\<close>

lemma process_line_io:
  assumes "process_line rec fs base line st = Some st'"
  obtains (Include) p where "rec p st = Some st'"
  | (Other) "processed_files st' = processed_files st" and "opened st' = opened st"
  using assms
proof (cases rule: process_line_cases)
  case (Include p)
  from Include(2) show ?thesis by (rule that(1))
next
  case (Region_marker toks)
  then show ?thesis
    by (intro that(2)) (simp_all add: region_line_opcodes_fields new_region_fields)
next
  case (Opcodes toks)
  then show ?thesis
    by (intro that(2)) (simp_all add: store_opcodes_fields)
qed (auto intro: that(2) simp: new_group_def)

lemma process_line_total:
  assumes "\<And>p. \<exists>s'. rec p st = Some s'"
  shows "\<exists>st'. process_line rec fs base line st = Some st'"
  using assms
  unfolding process_line_def Let_def include_line_def
  by (auto split: option.splits)

lemma process_lines_read_once:
  assumes "\<And>p s s'. read_once s \<Longrightarrow> rec p s = Some s' \<Longrightarrow> read_once s'"
  shows "read_once st \<Longrightarrow> process_lines rec fs base ls st = Some st' \<Longrightarrow> read_once st'"
proof (induction ls arbitrary: st)
  case Nil
  then show ?case by simp
next
  case (Cons l ls)
  from Cons.prems(2) obtain s1 where
    s1: "process_line rec fs base (strip l) st = Some s1" and
    rest: "process_lines rec fs base ls s1 = Some st'"
    by (auto split: option.splits)
  from s1 have "read_once s1"
  proof (cases rule: process_line_io)
    case (Include p)
    with assms Cons.prems(1) show ?thesis by blast
  next
    case Other
    with Cons.prems(1) show ?thesis by (simp add: read_once_def)
  qed
  then show ?case
    using rest by (rule Cons.IH)
qed

lemma parse_file_read_once:
  "read_once st \<Longrightarrow> parse_file n fs p st = Some st' \<Longrightarrow> read_once st'"
proof (induction n arbitrary: st p st')
  case 0
  then show ?case by simp
next
  case (Suc n)
  let ?p = "resolve fs p"
  show ?case
  proof (cases "?p \<in> processed_files st \<or> map_of (files fs) ?p = None")
    case True
    with Suc.prems show ?thesis
      by (auto simp: Let_def split: if_splits)
  next
    case False
    then obtain ls where ls: "map_of (files fs) ?p = Some ls" by auto
    let ?s = "st\<lparr>processed_files := insert ?p (processed_files st), opened := opened st @ [?p]\<rparr>"
    have run: "process_lines (parse_file n fs) fs (parent fs ?p) ls ?s = Some st'"
      using Suc.prems(2) False ls by (simp add: Let_def)
    have "read_once ?s"
      using Suc.prems(1) False by (auto simp: read_once_def)
    moreover have "\<And>q s s'. read_once s \<Longrightarrow> parse_file n fs q s = Some s' \<Longrightarrow> read_once s'"
      by (rule Suc.IH)
    ultimately show ?thesis
      using run process_lines_read_once[of "parse_file n fs" ?s fs "parent fs ?p" ls st'] by blast
  qed
qed

lemma pending_mono:
  "processed_files st \<subseteq> processed_files st' \<Longrightarrow> pending fs st' \<le> pending fs st"
  unfolding pending_def by (intro card_mono) auto

lemma pending_insert:
  assumes "map_of (files fs) p = Some ls" and "p \<notin> processed_files st"
  shows "pending fs (st\<lparr>processed_files := insert p (processed_files st), opened := x\<rparr>)
           < pending fs st"
proof -
  have "p \<in> fst ` set (files fs)"
    using assms(1) by (metis domI dom_map_of_conv_image_fst)
  then have "fst ` set (files fs) - insert p (processed_files st)
      \<subset> fst ` set (files fs) - processed_files st"
    using assms(2) by auto
  then show ?thesis
    unfolding pending_def by (simp add: psubset_card_mono)
qed

lemma process_lines_total:
  assumes "\<And>p s. pending fs s < n \<Longrightarrow>
      \<exists>s'. rec p s = Some s' \<and> processed_files s \<subseteq> processed_files s'"
  shows "pending fs st < n \<Longrightarrow>
      \<exists>st'. process_lines rec fs base ls st = Some st' \<and> processed_files st \<subseteq> processed_files st'"
proof (induction ls arbitrary: st)
  case Nil
  then show ?case by simp
next
  case (Cons l ls)
  have "\<exists>s1. process_line rec fs base (strip l) st = Some s1"
    using assms[OF Cons.prems] by (intro process_line_total) blast
  then obtain s1 where s1: "process_line rec fs base (strip l) st = Some s1" by blast
  from s1 have sub: "processed_files st \<subseteq> processed_files s1"
  proof (cases rule: process_line_io)
    case (Include p)
    with assms[OF Cons.prems, of p] show ?thesis by simp
  next
    case Other
    then show ?thesis by simp
  qed
  then have "pending fs s1 < n"
    using pending_mono[of st s1 fs] Cons.prems by simp
  from Cons.IH[OF this] obtain st' where
    "process_lines rec fs base ls s1 = Some st'" and "processed_files s1 \<subseteq> processed_files st'"
    by blast
  with s1 sub show ?case by auto
qed

lemma parse_file_total:
  "pending fs st < n \<Longrightarrow>
     \<exists>st'. parse_file n fs p st = Some st' \<and> processed_files st \<subseteq> processed_files st'"
proof (induction n arbitrary: st p)
  case 0
  then show ?case by simp
next
  case (Suc n)
  let ?p = "resolve fs p"
  show ?case
  proof (cases "?p \<in> processed_files st \<or> map_of (files fs) ?p = None")
    case True
    then show ?thesis
      by (auto simp: Let_def)
  next
    case False
    then obtain ls where ls: "map_of (files fs) ?p = Some ls" by auto
    let ?s = "st\<lparr>processed_files := insert ?p (processed_files st), opened := opened st @ [?p]\<rparr>"
    have "pending fs ?s < pending fs st"
      using ls False by (intro pending_insert) auto
    with Suc.prems have "pending fs ?s < n" by simp
    moreover have "\<And>q s. pending fs s < n \<Longrightarrow>
        \<exists>s'. parse_file n fs q s = Some s' \<and> processed_files s \<subseteq> processed_files s'"
      by (rule Suc.IH)
    ultimately obtain st' where
      "process_lines (parse_file n fs) fs (parent fs ?p) ls ?s = Some st'"
      "processed_files ?s \<subseteq> processed_files st'"
      using process_lines_total[of fs n "parse_file n fs" ?s "parent fs ?p" ls] by blast
    with False ls show ?thesis
      by (auto simp: Let_def)
  qed
qed

lemma pending_le_files: "pending fs st \<le> length (files fs)"
proof -
  have "pending fs st \<le> card (fst ` set (files fs))"
    unfolding pending_def by (intro card_mono) auto
  also have "\<dots> \<le> card (set (files fs))"
    by (intro card_image_le) simp
  also have "\<dots> \<le> length (files fs)"
    by (rule card_length)
  finally show ?thesis .
qed

lemma include_line_rec_mono:
  assumes "\<And>p s s'. rec p s = Some s' \<Longrightarrow> rec' p s = Some s'"
    and "include_line rec fs base line st = Some st'"
  shows "include_line rec' fs base line st = Some st'"
  using assms(2) assms(1)
  unfolding include_line_def Let_def
  by (auto split: option.splits if_splits)

lemma process_line_via_include:
  "process_line rec fs base line st =
     (if line \<noteq> [] \<and> \<not> startswith line ''//'' \<and> \<not> startswith (uncomment line) ''#define''
         \<and> startswith (uncomment line) ''#include''
      then include_line rec fs base (uncomment line) st
      else process_line (\<lambda>p s. None) fs base line st)"
  by (simp add: process_line_def Let_def)

lemma process_line_rec_mono:
  assumes "\<And>p s s'. rec p s = Some s' \<Longrightarrow> rec' p s = Some s'"
    and "process_line rec fs base line st = Some st'"
  shows "process_line rec' fs base line st = Some st'"
proof (cases "line \<noteq> [] \<and> \<not> startswith line ''//'' \<and> \<not> startswith (uncomment line) ''#define''
         \<and> startswith (uncomment line) ''#include''")
  case True
  have e: "process_line r fs base line st = include_line r fs base (uncomment line) st" for r
    by (rule trans[OF process_line_via_include if_P[OF True]])
  from assms(2) have "include_line rec fs base (uncomment line) st = Some st'"
    by (simp only: e)
  then have "include_line rec' fs base (uncomment line) st = Some st'"
    using assms(1) include_line_rec_mono by blast
  then show ?thesis
    by (simp only: e)
next
  case False
  have e: "process_line r fs base line st = process_line (\<lambda>p s. None) fs base line st" for r
    by (rule trans[OF process_line_via_include if_not_P[OF False]])
  from assms(2) show ?thesis
    by (simp only: e[of rec] e[of rec'])
qed

lemma process_lines_rec_mono:
  assumes "\<And>p s s'. rec p s = Some s' \<Longrightarrow> rec' p s = Some s'"
  shows "process_lines rec fs base ls st = Some st' \<Longrightarrow> process_lines rec' fs base ls st = Some st'"
proof (induction ls arbitrary: st)
  case Nil
  then show ?case by simp
next
  case (Cons l ls)
  from Cons.prems obtain s1 where
    s1: "process_line rec fs base (strip l) st = Some s1" and
    rest: "process_lines rec fs base ls s1 = Some st'"
    by (auto split: option.splits)
  have "process_line rec' fs base (strip l) st = Some s1"
    using assms s1 by (rule process_line_rec_mono)
  with Cons.IH[OF rest] show ?case by simp
qed

lemma parse_file_Suc:
  "parse_file n fs p st = Some st' \<Longrightarrow> parse_file (Suc n) fs p st = Some st'"
proof (induction n arbitrary: p st st')
  case 0
  then show ?case by simp
next
  case (Suc n)
  let ?p = "resolve fs p"
  show ?case
  proof (cases "?p \<in> processed_files st \<or> map_of (files fs) ?p = None")
    case True
    with Suc.prems show ?thesis
      by (auto simp: Let_def)
  next
    case False
    then obtain ls where ls: "map_of (files fs) ?p = Some ls" by auto
    let ?s = "st\<lparr>processed_files := insert ?p (processed_files st), opened := opened st @ [?p]\<rparr>"
    have "process_lines (parse_file n fs) fs (parent fs ?p) ls ?s = Some st'"
      using Suc.prems False ls by (simp add: Let_def)
    then have "process_lines (parse_file (Suc n) fs) fs (parent fs ?p) ls ?s = Some st'"
      by (rule process_lines_rec_mono[rotated]) (rule Suc.IH)
    with False ls show ?thesis
      using parse_file.simps(2)[of "Suc n" fs p st] by (simp add: Let_def)
  qed
qed

lemma parse_file_more_fuel:
  "parse_file n fs p st = Some st' \<Longrightarrow> parse_file (n + k) fs p st = Some st'"
  by (induction k) (auto dest: parse_file_Suc)

text \<open>
  C2. With an inclusion bound above the number of files that exist, \<open>parse_file\<close> returns,
  the result is the same for every larger bound, and no path is opened twice: this holds
  for every file system, whatever files include one another. A call for a path that is
  already processed returns the parser unchanged, and so does an \<^verbatim>\<open>#include\<close> line whose
  target is already processed. The recursion limit of the interpreter is not modelled.
\<close>

theorem include_terminates_read_once:
  "(distinct (opened st0) \<and> set (opened st0) \<subseteq> processed_files st0 \<and> length (files fs) < n \<longrightarrow>
      (\<exists>st. (\<forall>k. parse_file (n + k) fs path st0 = Some st)
            \<and> distinct (opened st) \<and> set (opened st) \<subseteq> processed_files st
            \<and> processed_files st0 \<subseteq> processed_files st))
   \<and> (resolve fs path \<in> processed_files st0 \<longrightarrow> parse_file (Suc m) fs path st0 = Some st0)
   \<and> (search_quoted line = Some ip
       \<and> resolve fs (join_resolve fs base
            (replace (subst_macros (defines_tbl st0) ip) [CHR 0x5C] ''/'')) \<in> processed_files st0
      \<longrightarrow> include_line (parse_file (Suc m) fs) fs base line st0 = Some st0)"
proof (intro conjI impI)
  assume a: "distinct (opened st0) \<and> set (opened st0) \<subseteq> processed_files st0
      \<and> length (files fs) < n"
  then have "pending fs st0 < n"
    using pending_le_files[of fs st0] by simp
  then obtain st where st: "parse_file n fs path st0 = Some st"
    and sub: "processed_files st0 \<subseteq> processed_files st"
    using parse_file_total by blast
  have "read_once st0"
    using a by (simp add: read_once_def)
  then have "read_once st"
    using st by (rule parse_file_read_once)
  moreover have "\<forall>k. parse_file (n + k) fs path st0 = Some st"
    using st by (simp add: parse_file_more_fuel)
  ultimately show "\<exists>st. (\<forall>k. parse_file (n + k) fs path st0 = Some st)
            \<and> distinct (opened st) \<and> set (opened st) \<subseteq> processed_files st
            \<and> processed_files st0 \<subseteq> processed_files st"
    using sub by (auto simp: read_once_def)
next
  assume "resolve fs path \<in> processed_files st0"
  then show "parse_file (Suc m) fs path st0 = Some st0"
    by (simp add: Let_def)
next
  assume "search_quoted line = Some ip
       \<and> resolve fs (join_resolve fs base
            (replace (subst_macros (defines_tbl st0) ip) [CHR 0x5C] ''/'')) \<in> processed_files st0"
  then show "include_line (parse_file (Suc m) fs) fs base line st0 = Some st0"
    by (simp add: include_line_def Let_def)
qed

theorem include_terminates_read_once_witness:
  "parse_file 4 cyclic_fs ''A'' init_parser = Some cyclic_parsed
   \<and> distinct (opened cyclic_parsed)
   \<and> opened cyclic_parsed = [''A'', ''B'', ''C'']
   \<and> parse_file 1 cyclic_fs ''B'' cyclic_parsed = Some cyclic_parsed
   \<and> include_line (parse_file 1 cyclic_fs) cyclic_fs []
         (''#include '' @ [CHR 0x22] @ ''A'' @ [CHR 0x22]) cyclic_parsed
       = Some cyclic_parsed"
proof -
  have run: "parse_file 4 cyclic_fs ''A'' init_parser = Some cyclic_parsed"
    by code_simp
  have pre: "distinct (opened init_parser) \<and> set (opened init_parser) \<subseteq> processed_files init_parser
      \<and> length (files cyclic_fs) < 4"
    by (simp add: init_parser_def cyclic_fs_def)
  from include_terminates_read_once[of init_parser cyclic_fs 4 "''A''"] pre
  obtain st where "\<forall>k. parse_file (4 + k) cyclic_fs ''A'' init_parser = Some st"
    and d: "distinct (opened st)"
    by blast
  then have "parse_file (4 + 0) cyclic_fs ''A'' init_parser = Some st"
    by blast
  with run have "st = cyclic_parsed" by simp
  with d have "distinct (opened cyclic_parsed)" by simp
  moreover have "opened cyclic_parsed = [''A'', ''B'', ''C'']"
    by (simp add: cyclic_parsed_def)
  moreover have "parse_file 1 cyclic_fs ''B'' cyclic_parsed = Some cyclic_parsed"
    using include_terminates_read_once[of cyclic_parsed cyclic_fs 4 "''B''" 0]
    by (simp add: cyclic_parsed_def cyclic_fs_def)
  moreover have "include_line (parse_file 1 cyclic_fs) cyclic_fs []
         (''#include '' @ [CHR 0x22] @ ''A'' @ [CHR 0x22]) cyclic_parsed
       = Some cyclic_parsed"
  proof -
    have q: "search_quoted (''#include '' @ [CHR 0x22] @ ''A'' @ [CHR 0x22]) = Some ''A''"
      by code_simp
    have i: "resolve cyclic_fs (join_resolve cyclic_fs []
        (replace (subst_macros (defines_tbl cyclic_parsed) ''A'') [CHR 0x5C] ''/''))
          \<in> processed_files cyclic_parsed"
      by code_simp
    from include_terminates_read_once[of cyclic_parsed cyclic_fs 4 "''A''" 0
        "''#include '' @ [CHR 0x22] @ ''A'' @ [CHR 0x22]" "''A''" "[]"] q i
    show ?thesis unfolding One_nat_def by blast
  qed
  ultimately show ?thesis using run by blast
qed

subsection \<open>The tokenizer\<close>

lemma index_of_append_fresh: "c \<notin> set pre \<Longrightarrow> index_of c (pre @ c # post) = Some (length pre)"
  by (induction pre) auto

lemma first_eq_found:
  assumes "CHR ''='' \<notin> set pre"
  shows "str_find CHR ''='' (pre @ CHR ''='' # post) 0 = Some (length pre)"
  using assms by (simp add: str_find_def index_of_append_fresh)

lemma strip_Nil: "strip [] = []"
  by (simp add: strip_def)

lemma empty_key_start:
  assumes "pre = [] \<or> last pre = CHR '' ''"
  shows "slice (pre @ CHR ''='' # post)
           (case str_rfind CHR '' '' (pre @ CHR ''='' # post) (length pre) of
              None \<Rightarrow> 0 | Some k \<Rightarrow> Suc k) (length pre) = []"
proof (cases "pre = []")
  case True
  then show ?thesis by (simp add: slice_def)
next
  case False
  with assms have "last pre = CHR '' ''" by simp
  with False have "hd (rev pre) = CHR '' ''" and "rev pre \<noteq> []"
    by (simp_all add: hd_rev)
  then have "index_of CHR '' '' (rev pre) = Some 0"
    by (cases "rev pre") auto
  then show ?thesis
    using False by (simp add: str_rfind_def slice_def)
qed

lemma empty_key_first:
  assumes "CHR ''='' \<notin> set pre" and "pre = [] \<or> last pre = CHR '' ''"
  shows "\<exists>v rest. extract_opcodes (pre @ CHR ''='' # post) = ([], v) # rest"
proof -
  let ?line = "pre @ CHR ''='' # post"
  have f: "str_find CHR ''='' ?line 0 = Some (length pre)"
    using assms(1) by (rule first_eq_found)
  have k: "strip (slice ?line
           (case str_rfind CHR '' '' ?line (length pre) of None \<Rightarrow> 0 | Some k \<Rightarrow> Suc k)
           (length pre)) = []"
    using empty_key_start[OF assms(2)] by (simp add: strip_Nil)
  show ?thesis
    unfolding extract_opcodes_def
    by (subst extract_from.simps) (simp add: f k Let_def split: option.splits)
qed

lemma store_opcodes_global_keys:
  assumes "current_section st = Some Global"
  shows "fst ` set (global st) \<subseteq> fst ` set (global (store_opcodes toks st))"
  using assms unfolding store_opcodes_def
proof (induction toks arbitrary: st)
  case Nil
  then show ?case by simp
next
  case (Cons t toks)
  obtain k v where t: "t = (k, v)" by (cases t)
  let ?s = "store_opcode k v st"
  have g: "global ?s = AList.update k (resolve_value st v) (global st)"
    using Cons.prems by (simp add: store_opcode_def Let_def)
  have "current_section ?s = Some Global"
    using Cons.prems by (simp add: store_opcode_fields)
  from Cons.IH[OF this] have "fst ` set (global ?s)
      \<subseteq> fst ` set (global (fold (\<lambda>(key, value). store_opcode key value) toks ?s))" .
  moreover have "fst ` set (global st) \<subseteq> fst ` set (global ?s)"
    by (auto simp: g dom_update)
  ultimately show ?case
    by (auto simp: t)
qed

lemma store_opcodes_global_first:
  assumes "current_section st = Some Global"
  shows "k \<in> fst ` set (global (store_opcodes ((k, v) # toks) st))"
proof -
  let ?s = "store_opcode k v st"
  have g: "global ?s = AList.update k (resolve_value st v) (global st)"
    using assms by (simp add: store_opcode_def Let_def)
  have "current_section ?s = Some Global"
    using assms by (simp add: store_opcode_fields)
  then have "fst ` set (global ?s) \<subseteq> fst ` set (global (store_opcodes toks ?s))"
    by (rule store_opcodes_global_keys)
  moreover have "k \<in> fst ` set (global ?s)"
    by (simp add: g dom_update)
  ultimately show ?thesis
    by (auto simp: store_opcodes_def)
qed

lemma pl_leading_equals:
  "\<exists>r. process_line rec fs base (CHR ''='' # post) st
        = Some (store_opcodes (extract_opcodes (CHR ''='' # r)) st)"
proof -
  have "\<exists>r. uncomment ([CHR ''=''] @ post) = [CHR ''=''] @ r"
    by (rule uncomment_keeps_marker) (simp_all add: isspace_def)
  then obtain r where r: "uncomment (CHR ''='' # post) = CHR ''='' # r"
    by auto
  have "process_line rec fs base (CHR ''='' # post) st
      = Some (store_opcodes (extract_opcodes (CHR ''='' # r)) st)"
    unfolding process_line_def Let_def r
    by (simp add: startswith_def)
  then show ?thesis by blast
qed

text \<open>
  C8, as the code has it. A line without an equals sign gives no pair. A line whose first
  equals sign stands at the start of the line or after a space is not skipped: the first
  pair of the tokenizer has the empty key, and the line processor stores it, so that in
  the global section a line that starts with an equals sign puts the empty key into the
  global scope.
\<close>

theorem tokenizer_edge_cases:
  "(CHR ''='' \<notin> set line \<longrightarrow> extract_opcodes line = [])
   \<and> (CHR ''='' \<notin> set pre \<and> (pre = [] \<or> last pre = CHR '' '') \<longrightarrow>
        (\<exists>v rest. extract_opcodes (pre @ CHR ''='' # post) = ([], v) # rest))
   \<and> (current_section st = Some Global \<longrightarrow>
        (\<exists>st'. process_line rec fs base (CHR ''='' # post) st = Some st'
               \<and> [] \<in> fst ` set (global st')))"
proof (intro conjI impI)
  assume "CHR ''='' \<notin> set line"
  then show "extract_opcodes line = []"
    by (intro extract_opcodes_no_eq) (simp add: contains_char)
next
  assume "CHR ''='' \<notin> set pre \<and> (pre = [] \<or> last pre = CHR '' '')"
  then show "\<exists>v rest. extract_opcodes (pre @ CHR ''='' # post) = ([], v) # rest"
    by (intro empty_key_first) simp_all
next
  assume sec: "current_section st = Some Global"
  obtain r where r: "process_line rec fs base (CHR ''='' # post) st
        = Some (store_opcodes (extract_opcodes (CHR ''='' # r)) st)"
    using pl_leading_equals by blast
  obtain v rest where "extract_opcodes ([] @ CHR ''='' # r) = ([], v) # rest"
    using empty_key_first[of "[]" r] by auto
  then have "[] \<in> fst ` set (global (store_opcodes (extract_opcodes (CHR ''='' # r)) st))"
    using store_opcodes_global_first[OF sec, of "[]" v rest] by simp
  with r show "\<exists>st'. process_line rec fs base (CHR ''='' # post) st = Some st'
               \<and> [] \<in> fst ` set (global st')"
    by blast
qed

theorem tokenizer_edge_cases_witness:
  "extract_opcodes ''volume'' = []
   \<and> extract_opcodes ''a =5'' = [([], ''5'')]
   \<and> process_line (\<lambda>p s. None) numeric_sample_fs [] ''=5''
        (init_parser\<lparr>current_section := Some Global\<rparr>)
      = Some (init_parser\<lparr>current_section := Some Global, global := [([], VInt 5)]\<rparr>)
   \<and> [] \<in> fst ` set (global (init_parser\<lparr>current_section := Some Global,
                                              global := [([], VInt 5)]\<rparr>))"
proof -
  note t = tokenizer_edge_cases[of "''volume''" "''a ''" "''5''"
      "init_parser\<lparr>current_section := Some Global\<rparr>" "\<lambda>p s. None" numeric_sample_fs "[]"]
  have "extract_opcodes ''volume'' = []"
    using t by simp
  moreover have "extract_opcodes ''a =5'' = [([], ''5'')]"
  proof -
    from t obtain v rest where "extract_opcodes ''a =5'' = ([], v) # rest"
      by auto
    moreover have "map snd (extract_opcodes ''a =5'') = [''5'']"
      by code_simp
    ultimately show ?thesis by auto
  qed
  moreover have run: "process_line (\<lambda>p s. None) numeric_sample_fs [] ''=5''
        (init_parser\<lparr>current_section := Some Global\<rparr>)
      = Some (init_parser\<lparr>current_section := Some Global, global := [([], VInt 5)]\<rparr>)"
    by code_simp
  moreover have "[] \<in> fst ` set (global (init_parser\<lparr>current_section := Some Global,
                                              global := [([], VInt 5)]\<rparr>))"
  proof -
    from t obtain st' where "process_line (\<lambda>p s. None) numeric_sample_fs [] ''=5''
        (init_parser\<lparr>current_section := Some Global\<rparr>) = Some st'"
      and "[] \<in> fst ` set (global st')"
      by auto
    with run show ?thesis by simp
  qed
  ultimately show ?thesis by blast
qed

text \<open>
  C8 as stated fails on the line \<^verbatim>\<open>=5\<close>: the tokenizer returns the pair of the empty key
  and \<^verbatim>\<open>5\<close>, and in the global section the empty key is stored with the value 5.
\<close>

theorem empty_key_is_stored:
  "extract_opcodes ''=5'' = [([], ''5'')]
   \<and> process_line (\<lambda>p s. None) numeric_sample_fs [] ''=5''
        (init_parser\<lparr>current_section := Some Global\<rparr>)
      = Some (init_parser\<lparr>current_section := Some Global, global := [([], VInt 5)]\<rparr>)"
  by code_simp

lemma strip_no_space: "\<forall>c\<in>set s. \<not> isspace c \<Longrightarrow> strip s = s"
proof -
  assume a: "\<forall>c\<in>set s. \<not> isspace c"
  then have "dropWhile isspace s = s"
    by (cases s) simp_all
  moreover have "\<forall>c\<in>set (rev s). \<not> isspace c"
    using a by simp
  then have "dropWhile isspace (rev s) = rev s"
    by (cases "rev s") simp_all
  ultimately show ?thesis
    by (simp add: strip_def)
qed

lemma index_of_takeWhile:
  "index_of c xs = Some k \<Longrightarrow> take k xs = takeWhile (\<lambda>x. x \<noteq> c) xs"
  by (induction xs arbitrary: k) (auto split: if_splits)

lemma space_is_space: "isspace CHR '' ''"
  by (simp add: isspace_def)

lemma key_is_spec_key:
  assumes only: "\<forall>c\<in>set line. isspace c \<longrightarrow> c = CHR '' ''" and eq: "eq < length line"
  shows "strip (slice line (case str_rfind CHR '' '' line eq of None \<Rightarrow> 0 | Some k \<Rightarrow> Suc k) eq)
           = spec_key line eq"
proof -
  let ?pre = "take eq line"
  have len: "length ?pre = eq"
    using eq by simp
  have cls: "(x \<noteq> CHR '' '') = (\<not> isspace x)" if "x \<in> set (rev ?pre)" for x
    using that only space_is_space by (auto dest: in_set_takeD)
  have tw: "takeWhile (\<lambda>x. x \<noteq> CHR '' '') (rev ?pre) = takeWhile (\<lambda>c. \<not> isspace c) (rev ?pre)"
    by (rule takeWhile_cong) (simp_all add: cls)
  have clean: "\<forall>c\<in>set (spec_key line eq). \<not> isspace c"
    unfolding spec_key_def by (auto dest: set_takeWhileD)
  show ?thesis
  proof (cases "index_of CHR '' '' (rev ?pre)")
    case None
    then have "CHR '' '' \<notin> set (rev ?pre)"
      by (simp add: index_of_None)
    then have "takeWhile (\<lambda>x. x \<noteq> CHR '' '') (rev ?pre) = rev ?pre"
      by (subst takeWhile_eq_all_conv) auto
    then have "rev (takeWhile (\<lambda>c. \<not> isspace c) (rev ?pre)) = ?pre"
      by (simp only: tw[symmetric] rev_rev_ident)
    then have "spec_key line eq = ?pre"
      by (simp only: spec_key_def)
    moreover have "slice line 0 eq = ?pre"
      by (simp add: slice_def)
    ultimately show ?thesis
      using None clean by (simp add: str_rfind_def strip_no_space)
  next
    case (Some k)
    then have k: "k < eq"
      using index_of_less[of "CHR '' ''" "rev ?pre" k] len by simp
    have "slice line (Suc (eq - 1 - k)) eq = take k (drop (eq - k) line)"
      using k by (simp add: slice_def Suc_diff_Suc)
    also have "\<dots> = drop (eq - k) ?pre"
      using k by (simp add: drop_take)
    also have "\<dots> = rev (take k (rev ?pre))"
      using k len by (simp add: take_rev)
    also have "\<dots> = spec_key line eq"
      by (simp add: spec_key_def index_of_takeWhile[OF Some] tw)
    finally have "slice line (Suc (eq - 1 - k)) eq = spec_key line eq" .
    then show ?thesis
      using Some clean len by (simp add: str_rfind_def strip_no_space)
  qed
qed

lemma extract_from_refines:
  assumes "\<forall>c\<in>set line. isspace c \<longrightarrow> c = CHR '' ''"
  shows "extract_from line i = map (\<lambda>(k, v). (k, strip v)) (spec_tokens line i)"
  using assms
proof (induction line i rule: extract_from.induct)
  case (1 line i)
  show ?case
  proof (cases "i < length line")
    case False
    then show ?thesis
      by (subst extract_from.simps, subst spec_tokens.simps) simp
  next
    case True
    show ?thesis
    proof (cases "str_find CHR ''='' line i")
      case None
      with True show ?thesis
        by (subst extract_from.simps, subst spec_tokens.simps) simp
    next
      case (Some eq)
      then have eq: "eq < length line"
        by (rule str_find_less)
      have key: "strip (slice line (case str_rfind CHR '' '' line eq of None \<Rightarrow> 0 | Some k \<Rightarrow> Suc k) eq)
           = spec_key line eq"
        using "1.prems" eq by (rule key_is_spec_key)
      show ?thesis
      proof (cases "search_key_pattern (drop (eq + 1) line)")
        case None
        with True Some key show ?thesis
          by (subst extract_from.simps, subst spec_tokens.simps) (simp add: Let_def)
      next
        case (Some m)
        have "extract_from line (eq + 1 + m)
            = map (\<lambda>(k, v). (k, strip v)) (spec_tokens line (eq + 1 + m))"
          using True \<open>str_find CHR ''='' line i = Some eq\<close> Some "1.prems"
          by (intro "1.IH") simp_all
        with True \<open>str_find CHR ''='' line i = Some eq\<close> Some key show ?thesis
          by (subst extract_from.simps, subst spec_tokens.simps) (simp add: Let_def)
      qed
    qed
  qed
qed

text \<open>
  C3, as the code has it. On a line whose white space consists of space characters only,
  the tokenizer returns the pairs of the specification in their order, each value with
  the white space at its ends removed; the line of the specification's example gives the
  two pairs it names. Lines with other white space are left out of the statement: the key
  search looks for the space character alone.
\<close>

theorem tokenizer_refines_spec:
  "((\<forall>c\<in>set line. isspace c \<longrightarrow> c = CHR '' '') \<longrightarrow>
      extract_opcodes line = map (\<lambda>(k, v). (k, strip v)) (spec_tokens line 0))
   \<and> extract_opcodes ''sample=My Piano.wav lovel=0''
       = [(''sample'', ''My Piano.wav''), (''lovel'', ''0'')]"
proof (intro conjI impI)
  assume "\<forall>c\<in>set line. isspace c \<longrightarrow> c = CHR '' ''"
  then show "extract_opcodes line = map (\<lambda>(k, v). (k, strip v)) (spec_tokens line 0)"
    unfolding extract_opcodes_def by (rule extract_from_refines)
next
  show "extract_opcodes ''sample=My Piano.wav lovel=0''
       = [(''sample'', ''My Piano.wav''), (''lovel'', ''0'')]"
    by code_simp
qed

theorem tokenizer_refines_spec_witness:
  "spec_tokens ''a= 1 b=2'' 0 = [(''a'', '' 1''), (''b'', ''2'')]
   \<and> extract_opcodes ''a= 1 b=2'' = [(''a'', ''1''), (''b'', ''2'')]"
proof -
  have only: "\<forall>c\<in>set ''a= 1 b=2''. isspace c \<longrightarrow> c = CHR '' ''"
    by (simp add: isspace_def)
  have spec: "spec_tokens ''a= 1 b=2'' 0 = [(''a'', '' 1''), (''b'', ''2'')]"
    by code_simp
  have s1: "strip '' 1'' = ''1''" and s2: "strip ''2'' = ''2''"
    by code_simp+
  from tokenizer_refines_spec[of "''a= 1 b=2''"] only
  have "extract_opcodes ''a= 1 b=2''
      = map (\<lambda>(k, v). (k, strip v)) (spec_tokens ''a= 1 b=2'' 0)"
    by blast
  then have "extract_opcodes ''a= 1 b=2'' = [(''a'', ''1''), (''b'', ''2'')]"
    by (simp only: spec list.map prod.case s1 s2)
  with spec show ?thesis by blast
qed

text \<open>
  C3 as stated fails. By design the value is trimmed: on \<^verbatim>\<open>a= 1\<close> the value of the
  specification starts with a space and the value of the code does not. On a line that
  separates two opcodes by a tab (\<open>CHR 0x09\<close>) the second key of the code is all the text
  before its equals sign.
\<close>

theorem tokenizer_differs_from_spec:
  "spec_tokens ''a= 1'' 0 = [(''a'', '' 1'')]
   \<and> extract_opcodes ''a= 1'' = [(''a'', ''1'')]
   \<and> spec_tokens (''a=1'' @ [CHR 0x09] @ ''b=2'') 0 = [(''a'', ''1''), (''b'', ''2'')]
   \<and> extract_opcodes (''a=1'' @ [CHR 0x09] @ ''b=2'')
       = [(''a'', ''1''), (''a=1'' @ [CHR 0x09] @ ''b'', ''2'')]"
  by code_simp

subsection \<open>Value resolution\<close>








end
